theory Spec2Isabelle
  imports
    Main
    "HOL-Library.Sublist"
    "HOL-Library.Char_ord"
    "HOL-Library.List_Lexorder"
    "HOL-Library.Multiset"
    "HOL-Library.AList"
begin

section \<open>JavaScript string and array primitives used by the sources\<close>

text \<open>
  A JavaScript string is modelled as a \<^typ>\<open>string\<close>: a list of code units, each below 256.
  Arrays of strings are lists. The default \<^verbatim>\<open>Array.prototype.sort()\<close> compares elements
  as strings, code unit by code unit, a proper prefix being smaller: this is the
  lexicographic order that \<^theory_text>\<open>List_Lexorder\<close> and \<^theory_text>\<open>Char_ord\<close> put on
  \<^typ>\<open>string\<close>, so the sorted array is \<^term>\<open>sort xs\<close>.
\<close>

type_synonym label = string

text \<open>\<^verbatim>\<open>s.includes(sub)\<close>: \<open>sub\<close> occurs in \<open>s\<close> as a contiguous substring.\<close>

fun str_includes :: "string \<Rightarrow> string \<Rightarrow> bool" where
  "str_includes [] sub = (sub = [])"
| "str_includes (c # cs) sub = (prefix sub (c # cs) \<or> str_includes cs sub)"

text \<open>\<^verbatim>\<open>s.replace(pat, rep)\<close> with a string pattern: only the first occurrence is replaced.\<close>

fun replace_first :: "string \<Rightarrow> string \<Rightarrow> string \<Rightarrow> string" where
  "replace_first pat rep [] = (if pat = [] then rep else [])"
| "replace_first pat rep (c # cs) =
     (if prefix pat (c # cs) then rep @ drop (length pat) (c # cs)
      else c # replace_first pat rep cs)"

text \<open>\<^verbatim>\<open>s.replace(/\.ext$/, '')\<close>: the pattern is anchored at the end of the string.\<close>

definition strip_suffix :: "string \<Rightarrow> string \<Rightarrow> string" where
  "strip_suffix suf s = (if suffix suf s then take (length s - length suf) s else s)"

text \<open>Decimal rendering of a non-negative integer counter, as a template literal does.\<close>

fun string_of_nat :: "nat \<Rightarrow> string" where
  "string_of_nat n =
     (if n < 10 then [''0123456789'' ! n]
      else string_of_nat (n div 10) @ [''0123456789'' ! (n mod 10)])"

declare string_of_nat.simps [simp del]

text \<open>
  \<^verbatim>\<open>toLowerCase()\<close> on code units below 256: the ASCII capitals and the capitals of the
  Latin-1 block (0xC0 to 0xDE without the multiplication sign 0xD7) move up by 32.
\<close>

definition lower_char :: "char \<Rightarrow> char" where
  "lower_char c =
     (let n = (of_char c :: nat) in
      if (65 \<le> n \<and> n \<le> 90) \<or> (192 \<le> n \<and> n \<le> 222 \<and> n \<noteq> 215)
      then char_of (n + 32) else c)"

definition toLowerCase :: "string \<Rightarrow> string" where
  "toLowerCase s = map lower_char s"

text \<open>\<^verbatim>\<open>trim()\<close>: the white space and line terminators among the code units below 256.\<close>

definition is_space :: "char \<Rightarrow> bool" where
  "is_space c = ((of_char c :: nat) \<in> {9, 10, 11, 12, 13, 32, 160})"

definition trim :: "string \<Rightarrow> string" where
  "trim s = rev (dropWhile is_space (rev (dropWhile is_space s)))"

text \<open>
  An exception of the source is a value of \<open>js_error\<close>: \<open>TypeError\<close> where the source
  reads a property of \<^verbatim>\<open>undefined\<close>, \<open>Error msg\<close> for \<^verbatim>\<open>throw new Error(msg)\<close>.
\<close>

datatype js_error = TypeError | Error string

text \<open>
  A table of the source is an object literal, and \<^verbatim>\<open>table[key]\<close> also finds what every
  object inherits from \<^verbatim>\<open>Object.prototype\<close>: under these names the lookup yields a function
  or an object, a truthy value on which the fields of a table entry are undefined.
\<close>

definition object_prototype_names :: "string list" where
  "object_prototype_names =
     [''constructor'', ''hasOwnProperty'', ''isPrototypeOf'', ''propertyIsEnumerable'',
      ''toLocaleString'', ''toString'', ''valueOf'', ''__proto__'', ''__defineGetter__'',
      ''__defineSetter__'', ''__lookupGetter__'', ''__lookupSetter__'']"

section \<open>OutputNaming: label-based output names with conflict resolution\<close>

text \<open>
  \<^verbatim>\<open>conflictCounter\<close> is a \<^verbatim>\<open>Map\<close> from names to counters; an association list keeps
  its insertion order, \<^verbatim>\<open>has\<close> is \<^term>\<open>map_of m k \<noteq> None\<close> and \<^verbatim>\<open>set\<close> is
  \<^const>\<open>AList.update\<close>.
\<close>

type_synonym conflictCounter = "(string \<times> nat) list"

definition has :: "conflictCounter \<Rightarrow> string \<Rightarrow> bool" where
  "has m k = (map_of m k \<noteq> None)"

definition numbered :: "string \<Rightarrow> string \<Rightarrow> nat \<Rightarrow> string" where
  "numbered baseName extension counter = baseName @ string_of_nat counter @ extension"

lemma string_of_nat_nonempty: "string_of_nat n \<noteq> []"
  by (subst string_of_nat.simps) simp

lemma digit_inj:
  assumes "d < 10" "e < 10" "''0123456789'' ! d = ''0123456789'' ! e"
  shows "d = e"
proof -
  have "distinct ''0123456789''" by simp
  moreover have "d < length ''0123456789''" "e < length ''0123456789''"
    using assms by simp_all
  ultimately show ?thesis using assms(3) by (simp only: nth_eq_iff_index_eq)
qed

lemma string_of_nat_inj: "string_of_nat n = string_of_nat m \<Longrightarrow> n = m"
proof (induction n arbitrary: m rule: string_of_nat.induct)
  case (1 n)
  show ?case
  proof (cases "n < 10")
    case small: True
    show ?thesis
    proof (cases "m < 10")
      case True
      with small "1.prems" show ?thesis
        by (simp add: string_of_nat.simps [of n] string_of_nat.simps [of m] digit_inj)
    next
      case False
      with small "1.prems" string_of_nat_nonempty [of "m div 10"] show ?thesis
        by (simp add: string_of_nat.simps [of n] string_of_nat.simps [of m])
    qed
  next
    case big: False
    show ?thesis
    proof (cases "m < 10")
      case True
      with big "1.prems" string_of_nat_nonempty [of "n div 10"] show ?thesis
        by (simp add: string_of_nat.simps [of n] string_of_nat.simps [of m])
    next
      case False
      with big "1.prems" have eq: "string_of_nat (n div 10) = string_of_nat (m div 10)"
        and dg: "''0123456789'' ! (n mod 10) = ''0123456789'' ! (m mod 10)"
        by (simp_all add: string_of_nat.simps [of n] string_of_nat.simps [of m])
      from "1.IH" [OF big eq] have "n div 10 = m div 10" .
      moreover from dg have "n mod 10 = m mod 10"
        by (intro digit_inj) simp_all
      ultimately show ?thesis by (metis div_mult_mod_eq)
    qed
  qed
qed

lemma numbered_inj: "numbered b e j = numbered b e k \<Longrightarrow> j = k"
  by (simp add: numbered_def string_of_nat_inj)

lemma finite_numbered_keys: "finite {k. numbered b e k \<in> set (map fst m)}"
proof -
  have "inj (numbered b e)" by (rule injI) (rule numbered_inj)
  then have "finite (numbered b e -` set (map fst m))"
    by (intro finite_vimageI) simp_all
  then show ?thesis by (simp add: vimage_def)
qed

text \<open>
  The \<^verbatim>\<open>while (this.conflictCounter.has(resolvedName)) counter++\<close> loop: the first counter
  from \<open>counter\<close> on whose numbered name is free.
\<close>

function firstFree :: "conflictCounter \<Rightarrow> string \<Rightarrow> string \<Rightarrow> nat \<Rightarrow> nat" where
  "firstFree m baseName extension counter =
     (if has m (numbered baseName extension counter)
      then firstFree m baseName extension (counter + 1) else counter)"
  by pat_completeness auto
termination
proof (relation "measure (\<lambda>(m, b, e, c). card {k. c \<le> k \<and> numbered b e k \<in> set (map fst m)})",
    goal_cases)
  case 1
  show ?case by simp
next
  case (2 m b e c)
  let ?S = "\<lambda>c. {k. c \<le> k \<and> numbered b e k \<in> set (map fst m)}"
  have fin: "finite (?S c)"
    by (rule finite_subset [OF _ finite_numbered_keys [of b e m]]) auto
  from 2 have "numbered b e c \<in> set (map fst m)"
    by (simp add: has_def map_of_eq_None_iff)
  then have "c \<in> ?S c" "c \<notin> ?S (c + 1)" by simp_all
  moreover have "?S (c + 1) \<subseteq> ?S c" by auto
  ultimately have "?S (c + 1) \<subset> ?S c" by blast
  with fin have "card (?S (c + 1)) < card (?S c)" by (rule psubset_card_mono)
  then show ?case by simp
qed

declare firstFree.simps [simp del]

definition resolveNamingConflict ::
  "conflictCounter \<Rightarrow> string \<Rightarrow> string \<Rightarrow> string \<times> conflictCounter" where
  "resolveNamingConflict m baseName extension =
     (let fullName = baseName @ extension in
      if \<not> has m fullName then (fullName, AList.update fullName 1 m)
      else
        let counter = firstFree m baseName extension (the (map_of m fullName) + 1);
            resolvedName = numbered baseName extension counter
        in (resolvedName, AList.update resolvedName 1 (AList.update fullName counter m)))"

text \<open>
  The optional \<^verbatim>\<open>params\<close> object. \<^verbatim>\<open>x || d\<close> on a string that may be undefined takes
  the default when the string is undefined or empty. Table lookups \<^verbatim>\<open>table[key] || d\<close> are
  modelled for keys that are not names of properties inherited from \<^verbatim>\<open>Object.prototype\<close>.
\<close>

record params =
  language :: "string option"
  templateName :: "string option"

fun or_default :: "string option \<Rightarrow> string \<Rightarrow> string" where
  "or_default None d = d"
| "or_default (Some s) d = (if s = [] then d else s)"

definition getNodeCategory :: "string \<Rightarrow> string" where
  "getNodeCategory toolType =
     (if toolType \<in> set [''pdf2text'', ''audio2text'', ''video2audio'', ''image2text'']
        then ''conversion''
      else if toolType \<in> set [''summarizer'', ''analyzer'', ''translator''] then ''processing''
      else if toolType \<in> set [''text2pdf'', ''text2template''] then ''template''
      else ''unknown'')"

definition getOutputExtension :: "string \<Rightarrow> string" where
  "getOutputExtension toolType =
     or_default (map_of
       [(''pdf2text'', ''.txt''), (''audio2text'', ''.txt''), (''video2audio'', ''.wav''),
        (''image2text'', ''.txt''), (''summarizer'', ''.txt''), (''analyzer'', ''.txt''),
        (''translator'', ''.txt''), (''text2pdf'', ''.pdf''), (''text2template'', ''.doc'')]
       toolType) ''.txt''"

definition getLanguageCode :: "string \<Rightarrow> string" where
  "getLanguageCode lang =
     (let normalized = toLowerCase lang in
      or_default (map_of
        [(''english'', ''en''), (''dutch'', ''nl''), (''french'', ''fr''), (''german'', ''de''),
         (''spanish'', ''es''), (''italian'', ''it''), (''portuguese'', ''pt'')]
        normalized) (take 2 normalized))"

definition getToolSuffix :: "string \<Rightarrow> params \<Rightarrow> string" where
  "getToolSuffix toolType ps =
     (if toolType = ''summarizer'' then ''-sum''
      else if toolType = ''analyzer'' then ''-analysis''
      else if toolType = ''translator''
        then ''-'' @ getLanguageCode (or_default (language ps) ''en'')
      else [])"

definition generateConversionOutputs :: "label list \<Rightarrow> string \<Rightarrow> label list" where
  "generateConversionOutputs inputLabels toolType =
     map (\<lambda>l. l @ getOutputExtension toolType) inputLabels"

definition generateProcessingOutput ::
  "conflictCounter \<Rightarrow> label list \<Rightarrow> string \<Rightarrow> params \<Rightarrow> label list \<times> conflictCounter" where
  "generateProcessingOutput m inputLabels toolType ps =
     (let sortedLabels = sort inputLabels;
          suffix = getToolSuffix toolType ps;
          baseName = concat sortedLabels @ suffix;
          (name, m') = resolveNamingConflict m baseName ''.txt''
      in ([name], m'))"

definition generateTemplateOutput ::
  "conflictCounter \<Rightarrow> label list \<Rightarrow> string \<Rightarrow> params \<Rightarrow> label list \<times> conflictCounter" where
  "generateTemplateOutput m inputLabels toolType ps =
     (let sortedLabels = sort inputLabels;
          tname = or_default (templateName ps) ''template'';
          extension = getOutputExtension toolType;
          baseName = concat sortedLabels @ ''_'' @ tname;
          (name, m') = resolveNamingConflict m baseName extension
      in ([name], m'))"

definition generateDefaultOutput ::
  "conflictCounter \<Rightarrow> label list \<Rightarrow> string \<Rightarrow> label list \<times> conflictCounter" where
  "generateDefaultOutput m inputLabels toolType =
     (let sortedLabels = sort inputLabels;
          baseName = concat sortedLabels @ ''_'' @ toolType;
          (name, m') = resolveNamingConflict m baseName ''.txt''
      in ([name], m'))"

definition generateOutputLabels ::
  "conflictCounter \<Rightarrow> label list \<Rightarrow> string \<Rightarrow> params \<Rightarrow> label list \<times> conflictCounter" where
  "generateOutputLabels m inputLabels toolType ps =
     (let nodeCategory = getNodeCategory toolType in
      if nodeCategory = ''conversion'' then (generateConversionOutputs inputLabels toolType, m)
      else if nodeCategory = ''processing'' then generateProcessingOutput m inputLabels toolType ps
      else if nodeCategory = ''template'' then generateTemplateOutput m inputLabels toolType ps
      else generateDefaultOutput m inputLabels toolType)"

text \<open>
  A run of the resolver over a list of requests (base name, extension), threading the
  counter map; the names are collected in call order.
\<close>

fun resolveAll :: "conflictCounter \<Rightarrow> (string \<times> string) list \<Rightarrow> string list \<times> conflictCounter" where
  "resolveAll m [] = ([], m)"
| "resolveAll m ((b, e) # reqs) =
     (let (name, m') = resolveNamingConflict m b e;
          (names, m'') = resolveAll m' reqs
      in (name # names, m''))"

subsection \<open>Properties of the resolver\<close>

lemma has_update: "has (AList.update k v m) k' = (k' = k \<or> has m k')"
  by (simp add: has_def update_conv')

lemma firstFree_free: "\<not> has m (numbered b e (firstFree m b e c))"
  by (induction m b e c rule: firstFree.induct) (subst firstFree.simps, simp)

lemma firstFree_here: "\<not> has m (numbered b e c) \<Longrightarrow> firstFree m b e c = c"
  by (subst firstFree.simps) simp

lemma string_of_nat_2: "string_of_nat 2 = ''2''"
  by (simp add: string_of_nat.simps)

lemma numbered_neq_full: "numbered b e k \<noteq> b @ e"
  using string_of_nat_nonempty [of k] by (simp add: numbered_def)

lemma resolve_fresh: "\<not> has m (fst (resolveNamingConflict m b e))"
  by (simp add: resolveNamingConflict_def Let_def firstFree_free)

lemma resolve_recorded:
  "has (snd (resolveNamingConflict m b e)) (fst (resolveNamingConflict m b e))"
  by (simp add: resolveNamingConflict_def Let_def has_update)

lemma resolve_mono: "has m k \<Longrightarrow> has (snd (resolveNamingConflict m b e)) k"
  by (simp add: resolveNamingConflict_def Let_def has_update)

lemma resolve_first:
  "\<not> has m (b @ e) \<Longrightarrow> resolveNamingConflict m b e = (b @ e, AList.update (b @ e) 1 m)"
  by (simp add: resolveNamingConflict_def Let_def)

lemma resolve_second:
  assumes "\<not> has m (b @ e)" "\<not> has m (b @ ''2'' @ e)"
  shows "fst (resolveNamingConflict (AList.update (b @ e) 1 m) b e) = b @ ''2'' @ e"
proof -
  let ?m1 = "AList.update (b @ e) 1 m"
  have n2: "numbered b e (Suc (Suc 0)) = b @ ''2'' @ e"
    using string_of_nat_2 by (simp add: numbered_def numeral_2_eq_2)
  have "\<not> has ?m1 (numbered b e (Suc (Suc 0)))"
    using assms(2) numbered_neq_full [of b e "Suc (Suc 0)"] by (simp add: has_update n2)
  then have "firstFree ?m1 b e (Suc (Suc 0)) = Suc (Suc 0)" by (rule firstFree_here)
  then show ?thesis
    by (simp add: resolveNamingConflict_def Let_def has_update n2 update_conv')
qed

lemma resolveAll_fresh:
  "distinct (fst (resolveAll m reqs)) \<and> set (fst (resolveAll m reqs)) \<inter> {k. has m k} = {}"
proof (induction reqs arbitrary: m)
  case Nil
  show ?case by simp
next
  case (Cons r reqs)
  obtain b e where r: "r = (b, e)" by (cases r)
  let ?n = "fst (resolveNamingConflict m b e)" and ?m' = "snd (resolveNamingConflict m b e)"
  have unfold: "fst (resolveAll m (r # reqs)) = ?n # fst (resolveAll ?m' reqs)"
    by (simp add: r split: prod.splits)
  from Cons.IH [of ?m'] have d: "distinct (fst (resolveAll ?m' reqs))"
    and i: "set (fst (resolveAll ?m' reqs)) \<inter> {k. has ?m' k} = {}" by simp_all
  from i resolve_recorded [of m b e] have "?n \<notin> set (fst (resolveAll ?m' reqs))" by auto
  moreover from i resolve_mono [of m _ b e]
  have "set (fst (resolveAll ?m' reqs)) \<inter> {k. has m k} = {}" by auto
  ultimately show ?case using d resolve_fresh [of m b e] by (simp add: unfold)
qed

text \<open>
  Claim C7. Asking the resolver twice in a row for the same base name and extension, neither
  the plain name nor the name numbered 2 being taken, yields the plain name and then the name
  with the numeric suffix 2; and over any run of requests, from any counter map, the resolver
  hands out pairwise different names, none of which the map already held.
\<close>

theorem resolveNamingConflict_twice_then_unique:
  assumes "\<not> has m (b @ e)" and "\<not> has m (b @ ''2'' @ e)"
  shows "fst (resolveNamingConflict m b e) = b @ e
    \<and> fst (resolveNamingConflict (snd (resolveNamingConflict m b e)) b e) = b @ ''2'' @ e
    \<and> distinct (fst (resolveAll m' reqs))
    \<and> set (fst (resolveAll m' reqs)) \<inter> {k. has m' k} = {}"
  using assms resolve_second [OF assms] resolveAll_fresh [of m' reqs]
  by (simp add: resolve_first)

theorem resolveNamingConflict_twice_then_unique_witness:
  "\<not> has [] (''AB-sum'' @ ''.txt'') \<and> \<not> has [] (''AB-sum'' @ ''2'' @ ''.txt'')
    \<and> fst (resolveNamingConflict [] ''AB-sum'' ''.txt'') = ''AB-sum.txt''
    \<and> fst (resolveNamingConflict (snd (resolveNamingConflict [] ''AB-sum'' ''.txt''))
          ''AB-sum'' ''.txt'') = ''AB-sum2.txt''
    \<and> distinct (fst (resolveAll [] [(''AB-sum'', ''.txt''), (''AB-sum'', ''.txt'')]))"
proof -
  have h1: "\<not> has [] (''AB-sum'' @ ''.txt'')" and h2: "\<not> has [] (''AB-sum'' @ ''2'' @ ''.txt'')"
    by (simp_all add: has_def)
  from resolveNamingConflict_twice_then_unique
    [OF h1 h2, of "[]" "[(''AB-sum'', ''.txt''), (''AB-sum'', ''.txt'')]"] h1 h2
  show ?thesis by simp
qed

section \<open>NodeDataManager: the node store\<close>

text \<open>
  A node record. The source's fields \<^verbatim>\<open>id\<close> and \<^verbatim>\<open>type\<close> are \<open>nodeId\<close> and
  \<open>nodeType\<close> here; a field that the source tests for absence (\<^verbatim>\<open>!node.inputLabels\<close>,
  \<^verbatim>\<open>node.inputLabels?.\<close>) is an option. The fields \<^verbatim>\<open>position\<close>, \<^verbatim>\<open>params\<close> and the
  processing flags play no part in the operations below and are left out.
\<close>

record fileInput =
  fi_name :: string
  fi_type :: string
  fi_label :: string

record node =
  nodeId :: string
  nodeType :: string
  inputLabels :: "label list option"
  outputLabels :: "label list option"
  userPrompt :: "string option"
  customPrompt :: "string option"
  fileInputs :: "fileInput list option"
  isManuallyCreated :: bool
  updatedAt :: nat

text \<open>
  What the manager emits on the event bus. \<^verbatim>\<open>emit\<close> calls the subscribed handlers, which
  belong to the user interface; the model records the emission in a log.
\<close>

datatype ndm_event =
    Node_validation_failed string label "string option"
  | Node_state_evaluate string
  | Node_inputs_changed string label string
  | Remove_text_file_label label string
  | Node_output_created label string string "label list"

record nodeDataManager =
  nodes :: "node list"
  nextNodeId :: nat
  events :: "ndm_event list"

definition emit :: "ndm_event \<Rightarrow> nodeDataManager \<Rightarrow> nodeDataManager" where
  "emit ev s = s\<lparr>events := events s @ [ev]\<rparr>"

definition getNodeById :: "nodeDataManager \<Rightarrow> string \<Rightarrow> node option" where
  "getNodeById s i = find (\<lambda>n. nodeId n = i) (nodes s)"

text \<open>
  The node objects are mutated in place; in the model the first node of the list with the
  given id, the one \<^verbatim>\<open>getNodeById\<close> finds, is replaced by its new value.
\<close>

fun store_node :: "node \<Rightarrow> node list \<Rightarrow> node list" where
  "store_node n' [] = []"
| "store_node n' (n # ns) = (if nodeId n = nodeId n' then n' # ns else n # store_node n' ns)"

subsection \<open>Input validation\<close>

text \<open>
  What \<^verbatim>\<open>getInputRules\<close> returns is read field by field. A field is \<open>None\<close> when it is
  undefined (or \<^verbatim>\<open>null\<close>, for \<^verbatim>\<open>maxInputs\<close>): all three are undefined on the value that
  \<^verbatim>\<open>rules[nodeType]\<close> finds under a name inherited from \<^verbatim>\<open>Object.prototype\<close>, which is
  truthy, so that \<^verbatim>\<open>|| { acceptedTypes: [], minInputs: 0, maxInputs: null }\<close> does not
  replace it.
\<close>

record inputRules =
  acceptedTypes :: "string list option"
  minInputs :: "nat option"
  maxInputs :: "nat option"

definition rule :: "string list \<Rightarrow> nat \<Rightarrow> nat option \<Rightarrow> inputRules" where
  "rule accepted minimum maximum =
     \<lparr>acceptedTypes = Some accepted, minInputs = Some minimum, maxInputs = maximum\<rparr>"

definition ndm_getInputRules :: "string \<Rightarrow> inputRules" where
  "ndm_getInputRules t =
     (case map_of
        [(''pdf2text'', rule [''.pdf''] 1 None),
         (''audio2text'', rule [''.mp3'', ''.wav'', ''.m4a'', ''.mp4''] 1 None),
         (''image2text'', rule [''.jpg'', ''.png'', ''.jpeg'', ''.gif''] 1 None),
         (''video2text'', rule [''.mp4'', ''.avi'', ''.mov''] 1 None),
         (''summarizer'', rule [''.txt''] 1 None),
         (''translator'', rule [''.txt''] 1 None),
         (''analyzer'', rule [''.txt''] 1 None),
         (''join'', rule [''.txt''] 2 None),
         (''text2pdf'', rule [''.txt''] 1 None),
         (''text2docx'', rule [''.txt''] 1 None),
         (''text2template'', rule [''.txt''] 1 (Some 1))] t
      of Some r \<Rightarrow> r
       | None \<Rightarrow>
           if t \<in> set object_prototype_names
           then \<lparr>acceptedTypes = None, minInputs = None, maxInputs = None\<rparr>
           else rule [] 0 None)"

text \<open>\<^verbatim>\<open>fileName.substring(fileName.lastIndexOf('.')).toLowerCase()\<close>, or the empty string.\<close>

definition getFileExtension :: "string \<Rightarrow> string" where
  "getFileExtension fileName =
     (if CHR ''.'' \<in> set fileName
      then toLowerCase (CHR ''.'' # rev (takeWhile (\<lambda>c. c \<noteq> CHR ''.'') (rev fileName)))
      else [])"

text \<open>
  \<^verbatim>\<open>rules.acceptedTypes.includes(fileExtension)\<close> throws a \<^verbatim>\<open>TypeError\<close> when
  \<^verbatim>\<open>acceptedTypes\<close> is undefined.
\<close>

definition isInputTypeValid :: "string \<Rightarrow> label \<Rightarrow> js_error + bool" where
  "isInputTypeValid t inputLabel =
     (case acceptedTypes (ndm_getInputRules t) of
        None \<Rightarrow> Inl TypeError
      | Some accepted \<Rightarrow> Inr (getFileExtension inputLabel \<in> set accepted))"

text \<open>
  \<^verbatim>\<open>promptRequirements[nodeType] || 'optional'\<close> is only ever compared with
  \<^verbatim>\<open>'mandatory'\<close>. Under a name inherited from \<^verbatim>\<open>Object.prototype\<close> the source finds a
  function, which is not that string; the model's \<open>optional\<close> compares the same way.
\<close>

definition getNodePromptRequirement :: "string \<Rightarrow> string" where
  "getNodePromptRequirement t =
     or_default (map_of
       [(''summarizer'', ''optional''), (''translator'', ''mandatory''),
        (''analyzer'', ''mandatory''), (''text2template'', ''mandatory'')] t) ''optional''"

definition hasValidUserPrompt :: "node \<Rightarrow> bool" where
  "hasValidUserPrompt n =
     (case userPrompt n of None \<Rightarrow> False | Some p \<Rightarrow> p \<noteq> [] \<and> 0 < length (trim p))"

record validation =
  canAccept :: bool
  reason :: string
  message :: "string option"

definition currentInputs :: "node \<Rightarrow> label list" where
  "currentInputs n = (case inputLabels n of None \<Rightarrow> [] | Some ls \<Rightarrow> ls)"

text \<open>\<^verbatim>\<open>inputRules.maxInputs && currentInputs.length >= inputRules.maxInputs\<close>.\<close>

definition maxInputsReached :: "inputRules \<Rightarrow> label list \<Rightarrow> bool" where
  "maxInputsReached r cur =
     (case maxInputs r of None \<Rightarrow> False | Some m \<Rightarrow> m \<noteq> 0 \<and> m \<le> length cur)"

text \<open>
  \<^verbatim>\<open>validateNodeInput\<close> checks the type first, and the exception of that check leaves it
  before any other check.
\<close>

definition validateNodeInput :: "node \<Rightarrow> label \<Rightarrow> js_error + validation" where
  "validateNodeInput nodeData newInputLabel =
     (let rules = ndm_getInputRules (nodeType nodeData);
          cur = currentInputs nodeData
      in
      case isInputTypeValid (nodeType nodeData) newInputLabel of
        Inl e \<Rightarrow> Inl e
      | Inr inputTypeValid \<Rightarrow>
          Inr
           (if \<not> inputTypeValid then
              \<lparr>canAccept = False, reason = ''incompatible_type'',
               message = Some (nodeType nodeData @ '' doesn't accept ''
                                 @ getFileExtension newInputLabel @ '' files'')\<rparr>
            else if maxInputsReached rules cur then
              \<lparr>canAccept = False, reason = ''max_inputs_exceeded'',
               message = Some (nodeType nodeData @ '' accepts maximum ''
                                 @ string_of_nat (the (maxInputs rules)) @ '' input(s)'')\<rparr>
            else if newInputLabel \<in> set cur then
              \<lparr>canAccept = False, reason = ''duplicate_input'',
               message = Some (''Input '' @ newInputLabel @ '' already added to this node'')\<rparr>
            else if getNodePromptRequirement (nodeType nodeData) = ''mandatory''
                    \<and> \<not> hasValidUserPrompt nodeData then
              \<lparr>canAccept = False, reason = ''missing_mandatory_prompt'',
               message = Some (or_default (map_of
                 [(''translator'',
                     ''You have to add a user-prompt before you can drop a file in a translation node''),
                  (''analyzer'',
                     ''You have to add a user-prompt before you can drop a file in an analyzer node''),
                  (''webscraper'',
                     ''You have to add a URL prompt before you can use the webscraper node'')]
                 (nodeType nodeData))
                 (nodeType nodeData @ '' requires a user prompt before accepting inputs''))\<rparr>
            else \<lparr>canAccept = True, reason = ''valid'', message = None\<rparr>))"

subsection \<open>Output generation\<close>

definition outputIndividualFiles :: "label list \<Rightarrow> string \<Rightarrow> label list" where
  "outputIndividualFiles ls suf = map (\<lambda>input. strip_suffix ''.txt'' input @ suf) ls"

definition outputCombinedFiles :: "label list \<Rightarrow> string \<Rightarrow> label list" where
  "outputCombinedFiles ls suf = [concat (map (strip_suffix ''.txt'') ls) @ suf]"

definition is_az :: "char \<Rightarrow> bool" where
  "is_az c = (97 \<le> (of_char c :: nat) \<and> (of_char c :: nat) \<le> 122)"

definition is_word :: "char \<Rightarrow> bool" where
  "is_word c =
     (let n = (of_char c :: nat) in
      (97 \<le> n \<and> n \<le> 122) \<or> (65 \<le> n \<and> n \<le> 90) \<or> (48 \<le> n \<and> n \<le> 57) \<or> n = 95)"

text \<open>
  The leftmost match of \<^verbatim>\<open>/\b([a-z]{2})\b/\<close>: two letters with no word character before
  or after them. \<open>prev\<close> tells whether the code unit before the current position is a word
  character.
\<close>

fun two_letter_word :: "bool \<Rightarrow> string \<Rightarrow> string option" where
  "two_letter_word prev (a # b # rest) =
     (if \<not> prev \<and> is_az a \<and> is_az b \<and> (case rest of [] \<Rightarrow> True | c # _ \<Rightarrow> \<not> is_word c)
      then Some [a, b] else two_letter_word (is_word a) (b # rest))"
| "two_letter_word prev _ = None"

definition languageMap :: "(string \<times> string) list" where
  "languageMap =
     [(''french'', ''fr''), (''france'', ''fr''), (''russian'', ''ru''), (''russia'', ''ru''),
      (''german'', ''de''), (''germany'', ''de''), (''spanish'', ''es''), (''spain'', ''es''),
      (''italian'', ''it''), (''italy'', ''it''), (''portuguese'', ''pt''), (''portugal'', ''pt''),
      (''chinese'', ''zh''), (''china'', ''zh''), (''japanese'', ''jp''), (''japan'', ''jp''),
      (''korean'', ''kr''), (''korea'', ''kr''), (''arabic'', ''ar''), (''english'', ''en''),
      (''dutch'', ''nl''), (''polish'', ''pl''), (''swedish'', ''se''), (''norwegian'', ''no''),
      (''danish'', ''dk'')]"

definition truthy_trimmed :: "string option \<Rightarrow> bool" where
  "truthy_trimmed p = (case p of None \<Rightarrow> False | Some s \<Rightarrow> s \<noteq> [] \<and> trim s \<noteq> [])"

definition parseLanguageFromPrompt :: "string option \<Rightarrow> string option" where
  "parseLanguageFromPrompt up =
     (if \<not> truthy_trimmed up then None
      else
        let prompt = trim (toLowerCase (the up)) in
        case find (\<lambda>(lang, code). str_includes prompt lang) languageMap of
          Some (lang, code) \<Rightarrow> Some code
        | None \<Rightarrow>
            (case two_letter_word False prompt of Some w \<Rightarrow> Some w | None \<Rightarrow> Some ''xx''))"

definition generateSimulatedOutputs :: "node \<Rightarrow> label list" where
  "generateSimulatedOutputs nodeData =
     (let t = nodeType nodeData; ls = currentInputs nodeData; up = userPrompt nodeData in
      if t \<in> set [''pdf2text'', ''audio2text'', ''image2text'', ''video2text'']
        then outputIndividualFiles ls ''.txt''
      else if t = ''translator'' then
        (case parseLanguageFromPrompt up of
           Some targetLang \<Rightarrow> outputIndividualFiles ls (''-'' @ targetLang @ ''.txt'')
         | None \<Rightarrow> [])
      else if t = ''summarizer'' then outputIndividualFiles ls ''-sum.txt''
      else if t = ''analyzer'' then
        (if truthy_trimmed up then outputCombinedFiles ls ''-anl.txt'' else [])
      else if t = ''join'' then outputCombinedFiles ls ''-joi.txt''
      else if t = ''text2pdf'' then outputIndividualFiles ls ''.pdf''
      else if t = ''text2docx'' then outputIndividualFiles ls ''.docx''
      else if t = ''text2template'' then
        (if truthy_trimmed up then outputIndividualFiles ls ''-filled.txt'' else [])
      else [])"

text \<open>
  \<^verbatim>\<open>updateNodeOutputs\<close> returns the updated node and the events it emits, in order.
  \<open>now\<close> is the value of \<^verbatim>\<open>Date.now()\<close>. The comparison
  \<^verbatim>\<open>inputLabels.length >= inputRules.minInputs\<close> is false when \<^verbatim>\<open>minInputs\<close> is undefined.
\<close>

definition updateNodeOutputs :: "nat \<Rightarrow> node \<Rightarrow> node \<times> ndm_event list" where
  "updateNodeOutputs now nodeData =
     (if currentInputs nodeData = [] then (nodeData\<lparr>outputLabels := Some []\<rparr>, [])
      else if (case minInputs (ndm_getInputRules (nodeType nodeData)) of
                 None \<Rightarrow> False
               | Some m \<Rightarrow> m \<le> length (currentInputs nodeData))
      then
        let isCombinedFlow = (nodeType nodeData \<in> set [''join'', ''analyzer'']);
            old = (case outputLabels nodeData of None \<Rightarrow> [] | Some os \<Rightarrow> os);
            removed = (if isCombinedFlow
                       then map (\<lambda>oldOutput. Remove_text_file_label oldOutput (nodeId nodeData)) old
                       else []);
            newOutputs = generateSimulatedOutputs nodeData;
            created = map (\<lambda>outputLabel. Node_output_created outputLabel (nodeId nodeData)
                              (nodeType nodeData) (currentInputs nodeData)) newOutputs
        in (nodeData\<lparr>outputLabels := Some newOutputs, updatedAt := now\<rparr>, removed @ created)
      else (nodeData\<lparr>outputLabels := Some [], updatedAt := now\<rparr>, []))"

subsection \<open>Label management\<close>

text \<open>
  \<^verbatim>\<open>addLabelToNode\<close> returns a boolean, or leaves with the exception of the validation,
  which it does not catch and which comes before any change to the store.
\<close>

definition addLabelToNode ::
  "nat \<Rightarrow> string \<Rightarrow> label \<Rightarrow> nodeDataManager \<Rightarrow> (js_error + bool) \<times> nodeDataManager"
  where
  "addLabelToNode now i lbl s =
     (case getNodeById s i of
        None \<Rightarrow> (Inr False, s)
      | Some n \<Rightarrow>
          (case validateNodeInput n lbl of
             Inl e \<Rightarrow> (Inl e, s)
           | Inr v \<Rightarrow>
               if \<not> canAccept v
               then (Inr False, emit (Node_validation_failed i lbl (message v)) s)
               else
                 let n0 = n\<lparr>inputLabels := Some (currentInputs n)\<rparr> in
                 if lbl \<notin> set (currentInputs n0) then
                   let n1 = n0\<lparr>inputLabels := Some (currentInputs n0 @ [lbl]),
                              updatedAt := now\<rparr>;
                       (n2, evs) = updateNodeOutputs now n1
                   in (Inr True,
                       s\<lparr>nodes := store_node n2 (nodes s),
                         events := events s @ evs
                           @ [Node_state_evaluate i, Node_inputs_changed i lbl ''added'']\<rparr>)
                 else (Inr False, s\<lparr>nodes := store_node n0 (nodes s)\<rparr>)))"

subsection \<open>Combined output names and the order of the inputs\<close>

lemma strip_suffix_eval:
  "strip_suffix suf s = (if prefix (rev suf) (rev s) then take (length s - length suf) s else s)"
  by (simp add: strip_suffix_def suffix_to_prefix)

lemma sort_perm_eq: "mset xs = mset ys \<Longrightarrow> sort xs = sort (ys :: 'a :: linorder list)"
  by (rule properties_for_sort) simp_all

text \<open>
  \<^verbatim>\<open>OutputNaming.generateProcessingOutput\<close> sorts a copy of the labels first, so on the same
  counter map it gives the same name for every arrangement of the same labels.
\<close>

lemma generateProcessingOutput_perm:
  "mset xs = mset ys \<Longrightarrow>
   generateProcessingOutput m xs t ps = generateProcessingOutput m ys t ps"
  by (simp add: generateProcessingOutput_def sort_perm_eq [of xs ys])

definition example_join_node :: node where
  "example_join_node =
     \<lparr>nodeId = ''node_1'', nodeType = ''join'', inputLabels = Some [''B.txt'', ''A.txt''],
      outputLabels = Some [], userPrompt = Some [], customPrompt = None, fileInputs = None,
      isManuallyCreated = True, updatedAt = 0\<rparr>"

text \<open>
  Claim C1 (the combined output name is built from the sorted labels, whatever the input
  order). \<^verbatim>\<open>OutputNaming.generateProcessingOutput\<close> does so: \<open>[B, A]\<close> with the summarizer
  suffix gives \<open>AB-sum.txt\<close>. \<^verbatim>\<open>NodeDataManager.outputCombinedFiles\<close>, which names the
  outputs of the combined-flow nodes (join, analyzer), concatenates the labels in the order
  of the node's input list: \<open>[B, A]\<close> gives \<open>BA-sum.txt\<close>, and a join node holding
  \<open>[B.txt, A.txt]\<close> gets the output \<open>BA-joi.txt\<close>.
\<close>

theorem outputCombinedFiles_keeps_input_order:
  "outputCombinedFiles [''B'', ''A''] ''-sum.txt'' = [''BA-sum.txt'']
    \<and> outputCombinedFiles [''A'', ''B''] ''-sum.txt'' = [''AB-sum.txt'']
    \<and> generateSimulatedOutputs example_join_node = [''BA-joi.txt'']
    \<and> fst (generateProcessingOutput [] [''B'', ''A''] ''summarizer'' ps) = [''AB-sum.txt'']"
proof -
  have "outputCombinedFiles [''B'', ''A''] ''-sum.txt'' = [''BA-sum.txt'']"
    by (simp add: outputCombinedFiles_def strip_suffix_eval)
  moreover have "outputCombinedFiles [''A'', ''B''] ''-sum.txt'' = [''AB-sum.txt'']"
    by (simp add: outputCombinedFiles_def strip_suffix_eval)
  moreover have "generateSimulatedOutputs example_join_node = [''BA-joi.txt'']"
    by (simp add: generateSimulatedOutputs_def example_join_node_def currentInputs_def
        outputCombinedFiles_def strip_suffix_eval)
  moreover have "fst (generateProcessingOutput [] [''B'', ''A''] ''summarizer'' ps) = [''AB-sum.txt'']"
    by (simp add: generateProcessingOutput_def getToolSuffix_def resolveNamingConflict_def
        has_def Let_def)
  ultimately show ?thesis by simp
qed

subsection \<open>Rejected labels leave the node store as it was\<close>

text \<open>
  For a node type that is not a name inherited from \<^verbatim>\<open>Object.prototype\<close> the rules have
  their list of accepted types; for an inherited name they have none, and the validation
  throws.
\<close>

lemma ndm_rules_accepted:
  "t \<notin> set object_prototype_names \<Longrightarrow> \<exists>accepted. acceptedTypes (ndm_getInputRules t) = Some accepted"
  by (simp add: ndm_getInputRules_def rule_def split: option.splits)

lemma ndm_acceptedTypes_inherited:
  "\<forall>t \<in> set object_prototype_names. acceptedTypes (ndm_getInputRules t) = None"
  by (simp add: ndm_getInputRules_def object_prototype_names_def)

lemma validate_rejects:
  assumes "t \<notin> set object_prototype_names" and "nodeType n = t"
    and "(\<exists>accepted. acceptedTypes (ndm_getInputRules t) = Some accepted
              \<and> getFileExtension l \<notin> set accepted)
       \<or> l \<in> set (currentInputs n)
       \<or> (\<exists>m. maxInputs (ndm_getInputRules t) = Some m \<and> 0 < m
              \<and> m \<le> length (currentInputs n))
       \<or> (getNodePromptRequirement t = ''mandatory'' \<and> \<not> hasValidUserPrompt n)"
  shows "\<exists>v msg. validateNodeInput n l = Inr v \<and> \<not> canAccept v \<and> message v = Some msg"
proof -
  from ndm_rules_accepted [OF assms(1)] obtain accepted where
    a: "acceptedTypes (ndm_getInputRules t) = Some accepted" by blast
  with assms(2,3) show ?thesis
    by (auto simp: validateNodeInput_def Let_def isInputTypeValid_def maxInputsReached_def)
qed

definition example_store :: nodeDataManager where
  "example_store = \<lparr>nodes = [example_join_node], nextNodeId = 2, events = []\<rparr>"

lemma getFileExtension_C_pdf: "getFileExtension ''C.pdf'' = ''.pdf''"
  by (simp add: getFileExtension_def toLowerCase_def lower_char_def)

text \<open>
  Claim C4. Let \<open>n\<close> be the node that the store holds under the id \<open>i\<close>, its type not
  being one of the names that every object inherits from \<^verbatim>\<open>Object.prototype\<close> (no tool
  type is one). If the
  extension of the label \<open>l\<close> is not among the accepted types of \<open>n\<close>'s type, or \<open>n\<close> already
  has \<open>l\<close>, or the maximum number of inputs of the type is reached, or the type needs a user
  prompt and \<open>n\<close> has none, then \<^verbatim>\<open>addLabelToNode(i, l)\<close> returns false and the only change to
  the state is one \<^verbatim>\<open>node:validation:failed\<close> event for \<open>i\<close> and \<open>l\<close>, with a message, added
  to the event log: the node list, and so the input labels of \<open>n\<close>, stay as they were.
\<close>

theorem addLabelToNode_rejects:
  assumes "getNodeById s i = Some n"
    and "nodeType n \<notin> set object_prototype_names"
    and "(\<exists>accepted. acceptedTypes (ndm_getInputRules (nodeType n)) = Some accepted
              \<and> getFileExtension l \<notin> set accepted)
       \<or> l \<in> set (currentInputs n)
       \<or> (\<exists>m. maxInputs (ndm_getInputRules (nodeType n)) = Some m \<and> 0 < m
              \<and> m \<le> length (currentInputs n))
       \<or> (getNodePromptRequirement (nodeType n) = ''mandatory'' \<and> \<not> hasValidUserPrompt n)"
  shows "\<exists>msg. addLabelToNode now i l s
           = (Inr False, s\<lparr>events := events s @ [Node_validation_failed i l (Some msg)]\<rparr>)"
proof -
  from validate_rejects [OF assms(2) refl assms(3)] obtain v msg where
    "validateNodeInput n l = Inr v" "\<not> canAccept v" "message v = Some msg" by blast
  with assms(1) show ?thesis
    by (intro exI [of _ msg]) (simp add: addLabelToNode_def Let_def emit_def)
qed

theorem addLabelToNode_rejects_witness:
  "getNodeById example_store ''node_1'' = Some example_join_node
    \<and> nodeType example_join_node \<notin> set object_prototype_names
    \<and> acceptedTypes (ndm_getInputRules (nodeType example_join_node)) = Some [''.txt'']
    \<and> getFileExtension ''C.pdf'' \<notin> set [''.txt'']
    \<and> (\<exists>msg. addLabelToNode 7 ''node_1'' ''C.pdf'' example_store
           = (Inr False, example_store\<lparr>events := events example_store
                @ [Node_validation_failed ''node_1'' ''C.pdf'' (Some msg)]\<rparr>))"
proof -
  have h1: "getNodeById example_store ''node_1'' = Some example_join_node"
    by (simp add: getNodeById_def example_store_def example_join_node_def)
  have h2: "nodeType example_join_node \<notin> set object_prototype_names"
    by (simp add: example_join_node_def object_prototype_names_def)
  have h3: "acceptedTypes (ndm_getInputRules (nodeType example_join_node)) = Some [''.txt'']"
    by (simp add: ndm_getInputRules_def rule_def example_join_node_def)
  have h4: "getFileExtension ''C.pdf'' \<notin> set [''.txt'']"
    by (simp add: getFileExtension_C_pdf)
  from h3 h4 have h5: "\<exists>accepted. acceptedTypes (ndm_getInputRules (nodeType example_join_node))
      = Some accepted \<and> getFileExtension ''C.pdf'' \<notin> set accepted"
    by blast
  from addLabelToNode_rejects [OF h1 h2 disjI1 [OF h5], of 7] h1 h2 h3 h4 show ?thesis
    by blast
qed

text \<open>
  A node whose type is a name inherited from \<^verbatim>\<open>Object.prototype\<close> is outside the tool
  catalogue. For such a node the validation throws a \<^verbatim>\<open>TypeError\<close>, and so does
  \<^verbatim>\<open>addLabelToNode\<close>, before any event and any change to the store.
\<close>

lemma addLabelToNode_inherited_type_throws:
  assumes "getNodeById s i = Some n" and "nodeType n \<in> set object_prototype_names"
  shows "addLabelToNode now i l s = (Inl TypeError, s)"
proof -
  from assms(2) have "acceptedTypes (ndm_getInputRules (nodeType n)) = None"
    using ndm_acceptedTypes_inherited by blast
  with assms(1) show ?thesis
    by (simp add: addLabelToNode_def validateNodeInput_def isInputTypeValid_def Let_def)
qed

section \<open>CascadingDeleteManager: the deletion-impact analysis\<close>

text \<open>
  The collaborators of the analysis. Each label store hands out a list of items that carry a
  label; a manager that has not been set is \<open>None\<close>. A connection has the ids of its two
  ends (\<^verbatim>\<open>from\<close>, \<^verbatim>\<open>to\<close>) and the file name that flows along it.

  \<^verbatim>\<open>getAllLabelsInSystem\<close> reads the output zone through a method \<^verbatim>\<open>getAllLabels\<close>, and
  only when the object has one. The field \<open>getAllLabels\<close> is what that method returns, and
  \<open>None\<close> for an object without the method. Class \<^verbatim>\<open>OutputZone\<close> keeps its entries in
  \<^verbatim>\<open>outputs\<close> and defines \<^verbatim>\<open>getOutputs\<close>, \<^verbatim>\<open>hasLabel\<close> and \<^verbatim>\<open>removeLabel\<close>, but no
  \<^verbatim>\<open>getAllLabels\<close>: its instances are the values of \<open>OutputZone\<close>.
\<close>

record labelItem =
  itemLabel :: label

record outputEntry =
  systemName :: label

record outputZone =
  outputs :: "outputEntry list"
  getAllLabels :: "label list option"

definition OutputZone :: "outputEntry list \<Rightarrow> outputZone" where
  "OutputZone outs = \<lparr>outputs = outs, getAllLabels = None\<rparr>"

record connection =
  fromId :: string
  toId :: string
  fileName :: string

record cascadingDeleteManager =
  allNodes :: "node list"
  allConnections :: "connection list"
  inputFilesManager :: "labelItem list option"
  textFilesManager :: "labelItem list option"
  outputZone :: "outputZone option"

record nodeImpact =
  ni_nodeId :: string
  ni_nodeType :: string
  ni_currentInputs :: "label list"
  remainingInputs :: "label list"
  willBeDeleted :: bool
  ni_reason :: string

record impact =
  im_label :: label
  baseLabel :: label
  affectedNodes :: "nodeImpact list"
  deletedConnections :: "connection list"
  cascadingDeletes :: "label list"
  totalNodesDeleted :: nat
  totalConnectionsDeleted :: nat

text \<open>
  The analysis has its own \<^verbatim>\<open>getInputRules\<close>, a table of minimum and maximum input
  counts. As in the node store, \<^verbatim>\<open>rules[nodeType] || { minInputs: 1, maxInputs: null }\<close>
  finds a value without these fields under a name inherited from \<^verbatim>\<open>Object.prototype\<close>;
  a field is \<open>None\<close> when it is undefined or \<^verbatim>\<open>null\<close>.
\<close>

record minMaxRules =
  mm_minInputs :: "nat option"
  mm_maxInputs :: "nat option"

definition minMax :: "nat \<Rightarrow> minMaxRules" where
  "minMax minimum = \<lparr>mm_minInputs = Some minimum, mm_maxInputs = None\<rparr>"

definition cdm_getInputRules :: "string \<Rightarrow> minMaxRules" where
  "cdm_getInputRules t =
     (case map_of
        [(''pdf2text'', minMax 1),
         (''audio2text'', minMax 1),
         (''image2text'', minMax 1),
         (''video2text'', minMax 1),
         (''translator'', minMax 1),
         (''summarizer'', minMax 1),
         (''analyzer'', minMax 1),
         (''join'', minMax 2),
         (''text2pdf'', minMax 1),
         (''text2docx'', minMax 1),
         (''template'', minMax 1)] t
      of Some r \<Rightarrow> r
       | None \<Rightarrow>
           if t \<in> set object_prototype_names
           then \<lparr>mm_minInputs = None, mm_maxInputs = None\<rparr>
           else minMax 1)"

text \<open>\<^verbatim>\<open>[...new Set(allLabels)]\<close>: every label once, at the place of its first occurrence.\<close>

definition uniq :: "'a list \<Rightarrow> 'a list" where
  "uniq xs = rev (remdups (rev xs))"

definition getAllLabelsInSystem :: "cascadingDeleteManager \<Rightarrow> label list" where
  "getAllLabelsInSystem sys =
     uniq
       ((case inputFilesManager sys of None \<Rightarrow> [] | Some items \<Rightarrow> map itemLabel items)
        @ (case textFilesManager sys of None \<Rightarrow> [] | Some items \<Rightarrow> map itemLabel items)
        @ (case outputZone sys of
             None \<Rightarrow> []
           | Some oz \<Rightarrow> (case getAllLabels oz of None \<Rightarrow> [] | Some ls \<Rightarrow> ls)))"

definition nodeUsesLabel :: "node \<Rightarrow> label \<Rightarrow> bool" where
  "nodeUsesLabel n base =
     (case inputLabels n of
        None \<Rightarrow> False
      | Some ls \<Rightarrow> list_ex (\<lambda>input. replace_first ''.txt'' [] input = base) ls)"

text \<open>
  \<^verbatim>\<open>remainingInputs.length < inputRules.minInputs\<close> is false when \<^verbatim>\<open>minInputs\<close> is
  undefined.
\<close>

definition analyzeNodeDeletion :: "node \<Rightarrow> label \<Rightarrow> nodeImpact" where
  "analyzeNodeDeletion n removedLabel =
     (let cur = currentInputs n;
          remaining = filter (\<lambda>input. replace_first ''.txt'' [] input \<noteq> removedLabel) cur;
          rules = cdm_getInputRules (nodeType n);
          del = (case mm_minInputs rules of
                   None \<Rightarrow> False
                 | Some m \<Rightarrow> length remaining < m)
      in \<lparr>ni_nodeId = nodeId n, ni_nodeType = nodeType n, ni_currentInputs = cur,
          remainingInputs = remaining, willBeDeleted = del,
          ni_reason =
            (if del then ''Node needs minimum ''
                         @ (case mm_minInputs rules of
                              None \<Rightarrow> ''undefined''
                            | Some m \<Rightarrow> string_of_nat m)
                         @ '' inputs, will have '' @ string_of_nat (length remaining)
             else ''Node will continue with remaining inputs'')\<rparr>)"

text \<open>\<^verbatim>\<open>label.replace(/\.(txt|pdf|docx|xlsx)$/, '')\<close>: one of four endings is cut off.\<close>

definition strip_known_extension :: "label \<Rightarrow> label" where
  "strip_known_extension l =
     (if suffix ''.txt'' l then take (length l - 4) l
      else if suffix ''.pdf'' l then take (length l - 4) l
      else if suffix ''.docx'' l then take (length l - 5) l
      else if suffix ''.xlsx'' l then take (length l - 5) l
      else l)"

text \<open>The loop over the nodes, with the impact record as the accumulator.\<close>

fun analyzeNodes :: "connection list \<Rightarrow> label \<Rightarrow> node list \<Rightarrow> impact \<Rightarrow> impact" where
  "analyzeNodes conns base [] im = im"
| "analyzeNodes conns base (n # ns) im =
     (if nodeUsesLabel n base then
        let ni = analyzeNodeDeletion n base;
            im1 = im\<lparr>affectedNodes := affectedNodes im @ [ni]\<rparr>;
            im2 = (if willBeDeleted ni
                   then im1\<lparr>totalNodesDeleted := totalNodesDeleted im1 + 1,
                            deletedConnections := deletedConnections im1
                              @ filter (\<lambda>c. fromId c = nodeId n \<or> toId c = nodeId n) conns\<rparr>
                   else im1)
        in analyzeNodes conns base ns im2
      else analyzeNodes conns base ns im)"

definition analyzeDeletionImpact :: "cascadingDeleteManager \<Rightarrow> label \<Rightarrow> impact" where
  "analyzeDeletionImpact sys labelToDelete =
     (let base = replace_first ''.txt'' [] labelToDelete;
          im0 = \<lparr>im_label = labelToDelete, baseLabel = base, affectedNodes = [],
                 deletedConnections = [], cascadingDeletes = [], totalNodesDeleted = 0,
                 totalConnectionsDeleted = 0\<rparr>;
          im1 = analyzeNodes (allConnections sys) base (allNodes sys) im0;
          cascadingLabels =
            filter (\<lambda>l. l \<noteq> labelToDelete \<and> str_includes (strip_known_extension l) base)
              (getAllLabelsInSystem sys)
      in im1\<lparr>cascadingDeletes := cascadingLabels,
             totalConnectionsDeleted := length (deletedConnections im1)\<rparr>)"

text \<open>
  The claim under test speaks of a name ``with its file extension stripped'': the part of the
  name before its last dot, the whole name when it has no dot. This definition follows those
  words, not the source.
\<close>

definition spec_strip_extension :: "label \<Rightarrow> label" where
  "spec_strip_extension l =
     (if CHR ''.'' \<in> set l then rev (tl (dropWhile (\<lambda>c. c \<noteq> CHR ''.'') (rev l))) else l)"

subsection \<open>Which labels cascade\<close>

lemma set_uniq: "set (uniq xs) = set xs"
  by (simp add: uniq_def)

lemma distinct_uniq: "distinct (uniq xs)"
  by (simp add: uniq_def)

text \<open>\<^const>\<open>str_includes\<close> is substring containment.\<close>

lemma str_includes_iff: "str_includes s sub = (\<exists>p q. s = p @ sub @ q)"
proof (induction s)
  case Nil
  show ?case by auto
next
  case (Cons c cs)
  show ?case
  proof
    assume "str_includes (c # cs) sub"
    then consider "prefix sub (c # cs)" | "str_includes cs sub" by auto
    then show "\<exists>p q. c # cs = p @ sub @ q"
    proof cases
      case 1
      then obtain q where "c # cs = sub @ q" by (auto simp: prefix_def)
      then have "c # cs = [] @ sub @ q" by simp
      then show ?thesis by blast
    next
      case 2
      with Cons.IH obtain p q where "cs = p @ sub @ q" by blast
      then have "c # cs = (c # p) @ sub @ q" by simp
      then show ?thesis by blast
    qed
  next
    assume "\<exists>p q. c # cs = p @ sub @ q"
    then obtain p q where pq: "c # cs = p @ sub @ q" by blast
    show "str_includes (c # cs) sub"
    proof (cases p)
      case Nil
      with pq have "prefix sub (c # cs)" by (simp add: prefix_def)
      then show ?thesis by simp
    next
      case (Cons a p')
      with pq have "cs = p' @ sub @ q" by simp
      with Cons.IH have "str_includes cs sub" by blast
      then show ?thesis by simp
    qed
  qed
qed

text \<open>
  The labels of the three stores. Those of the input-file store and of the text-file store
  are the labels of their items. Those of the output store are the system names of its
  entries (what \<^verbatim>\<open>hasLabel\<close> and \<^verbatim>\<open>removeLabel\<close> of class \<^verbatim>\<open>OutputZone\<close> compare a label
  with), and whatever the object hands over through \<^verbatim>\<open>getAllLabels\<close> if it has that
  method.
\<close>

definition input_text_labels :: "cascadingDeleteManager \<Rightarrow> label set" where
  "input_text_labels sys =
     (case inputFilesManager sys of None \<Rightarrow> {} | Some items \<Rightarrow> itemLabel ` set items)
     \<union> (case textFilesManager sys of None \<Rightarrow> {} | Some items \<Rightarrow> itemLabel ` set items)"

definition output_labels :: "cascadingDeleteManager \<Rightarrow> label set" where
  "output_labels sys =
     (case outputZone sys of
        None \<Rightarrow> {}
      | Some oz \<Rightarrow> systemName ` set (outputs oz)
                   \<union> (case getAllLabels oz of None \<Rightarrow> {} | Some ls \<Rightarrow> set ls))"

definition labels_in_stores :: "cascadingDeleteManager \<Rightarrow> label set" where
  "labels_in_stores sys = input_text_labels sys \<union> output_labels sys"

text \<open>
  What \<^verbatim>\<open>getAllLabelsInSystem\<close> returns lies between the labels of the first two stores and
  the labels of all three.
\<close>

lemma getAllLabelsInSystem_lower: "input_text_labels sys \<subseteq> set (getAllLabelsInSystem sys)"
  by (auto simp: getAllLabelsInSystem_def input_text_labels_def set_uniq split: option.splits)

lemma getAllLabelsInSystem_upper: "set (getAllLabelsInSystem sys) \<subseteq> labels_in_stores sys"
  by (auto simp: getAllLabelsInSystem_def labels_in_stores_def input_text_labels_def
      output_labels_def set_uniq split: option.splits)

lemma analyzeNodes_affected:
  "affectedNodes (analyzeNodes cs b ns im)
     = affectedNodes im @ map (\<lambda>n. analyzeNodeDeletion n b) (filter (\<lambda>n. nodeUsesLabel n b) ns)"
  by (induction ns arbitrary: im) (simp_all add: Let_def)

lemma analyzeNodes_total:
  "totalNodesDeleted (analyzeNodes cs b ns im)
     = totalNodesDeleted im
       + length (filter (\<lambda>n. nodeUsesLabel n b \<and> willBeDeleted (analyzeNodeDeletion n b)) ns)"
  by (induction ns arbitrary: im) (simp_all add: Let_def)

lemma impact_affected:
  "affectedNodes (analyzeDeletionImpact sys L)
     = map (\<lambda>n. analyzeNodeDeletion n (replace_first ''.txt'' [] L))
         (filter (\<lambda>n. nodeUsesLabel n (replace_first ''.txt'' [] L)) (allNodes sys))"
  by (simp add: analyzeDeletionImpact_def Let_def analyzeNodes_affected)

lemma impact_total:
  "totalNodesDeleted (analyzeDeletionImpact sys L)
     = length (filter (\<lambda>n. nodeUsesLabel n (replace_first ''.txt'' [] L)
          \<and> willBeDeleted (analyzeNodeDeletion n (replace_first ''.txt'' [] L))) (allNodes sys))"
  by (simp add: analyzeDeletionImpact_def Let_def analyzeNodes_total)

lemma impact_cascading:
  "cascadingDeletes (analyzeDeletionImpact sys L)
     = filter (\<lambda>l. l \<noteq> L \<and> str_includes (strip_known_extension l) (replace_first ''.txt'' [] L))
         (getAllLabelsInSystem sys)"
  by (simp add: analyzeDeletionImpact_def Let_def)

lemma impact_cascading_set:
  "set (cascadingDeletes (analyzeDeletionImpact sys L))
     = {l \<in> set (getAllLabelsInSystem sys). l \<noteq> L
          \<and> (\<exists>p q. strip_known_extension l = p @ replace_first ''.txt'' [] L @ q)}"
  by (auto simp: impact_cascading str_includes_iff)

lemma strip_known_extension_eval:
  "strip_known_extension l =
     (if prefix ''txt.'' (rev l) then take (length l - 4) l
      else if prefix ''fdp.'' (rev l) then take (length l - 4) l
      else if prefix ''xcod.'' (rev l) then take (length l - 5) l
      else if prefix ''xslx.'' (rev l) then take (length l - 5) l
      else l)"
  by (simp add: strip_known_extension_def suffix_to_prefix)

definition example_system :: cascadingDeleteManager where
  "example_system =
     \<lparr>allNodes = [], allConnections = [],
      inputFilesManager = Some [\<lparr>itemLabel = ''A''\<rparr>, \<lparr>itemLabel = ''B''\<rparr>],
      textFilesManager = Some [\<lparr>itemLabel = ''B.txt''\<rparr>, \<lparr>itemLabel = ''B.pdf''\<rparr>],
      outputZone = Some (OutputZone [])\<rparr>"

lemma example_labels: "getAllLabelsInSystem example_system = [''A'', ''B'', ''B.txt'', ''B.pdf'']"
  by (simp add: getAllLabelsInSystem_def example_system_def OutputZone_def uniq_def)

lemma example_stores: "labels_in_stores example_system = set [''A'', ''B'', ''B.txt'', ''B.pdf'']"
  by (auto simp: labels_in_stores_def input_text_labels_def output_labels_def example_system_def
      OutputZone_def)

text \<open>
  Claim C2 as stated fails: the base name of the label to delete is the label without its
  first \<^verbatim>\<open>.txt\<close>, not the label without its extension. With \<open>B.txt\<close> and \<open>B.pdf\<close> in the
  text-file store, deleting \<open>B.pdf\<close> looks for the names that contain \<open>B.pdf\<close>: \<open>B.txt\<close> is
  another label of the stores, its name without the extension contains \<open>B\<close>, the name of
  \<open>B.pdf\<close> without its extension, and yet it is not in the cascading list.
\<close>

theorem analyzeDeletionImpact_cascading_counterexample:
  "''B.txt'' \<in> labels_in_stores example_system \<and> ''B.txt'' \<noteq> ''B.pdf''
    \<and> str_includes (spec_strip_extension ''B.txt'') (spec_strip_extension ''B.pdf'')
    \<and> ''B.txt'' \<notin> set (cascadingDeletes (analyzeDeletionImpact example_system ''B.pdf''))"
proof -
  have "cascadingDeletes (analyzeDeletionImpact example_system ''B.pdf'') = []"
    by (simp add: impact_cascading example_labels strip_known_extension_eval)
  moreover have "''B.txt'' \<in> labels_in_stores example_system"
    by (simp add: example_stores)
  moreover have "str_includes (spec_strip_extension ''B.txt'') (spec_strip_extension ''B.pdf'')"
    by (simp add: spec_strip_extension_def)
  ultimately show ?thesis by simp
qed

text \<open>
  Claim C2, amended in the base name only. The cascading list of
  \<^verbatim>\<open>analyzeDeletionImpact(L)\<close> holds, each once, only labels of the three label stores
  (input files, text files, output files), other than \<open>L\<close> itself, whose name with a final
  \<^verbatim>\<open>.txt\<close>, \<^verbatim>\<open>.pdf\<close>, \<^verbatim>\<open>.docx\<close> or \<^verbatim>\<open>.xlsx\<close> cut off contains, as a substring, \<open>L\<close> with
  its first \<^verbatim>\<open>.txt\<close> removed; and it holds every such label of the input-file store and of
  the text-file store. Which of the labels that only the output store has are listed is not
  part of the statement. In particular, when no node uses the label and no other label of
  the three stores contains that base name, the impact has no affected node, no node to
  delete and no cascading label.
\<close>

theorem analyzeDeletionImpact_cascading:
  "{l \<in> input_text_labels sys. l \<noteq> L
       \<and> (\<exists>p q. strip_known_extension l = p @ replace_first ''.txt'' [] L @ q)}
     \<subseteq> set (cascadingDeletes (analyzeDeletionImpact sys L))
   \<and> set (cascadingDeletes (analyzeDeletionImpact sys L))
     \<subseteq> {l \<in> labels_in_stores sys. l \<noteq> L
          \<and> (\<exists>p q. strip_known_extension l = p @ replace_first ''.txt'' [] L @ q)}
   \<and> distinct (cascadingDeletes (analyzeDeletionImpact sys L))
   \<and> (\<not> list_ex (\<lambda>n. nodeUsesLabel n (replace_first ''.txt'' [] L)) (allNodes sys)
        \<and> {l \<in> labels_in_stores sys. l \<noteq> L
              \<and> (\<exists>p q. strip_known_extension l = p @ replace_first ''.txt'' [] L @ q)} = {}
      \<longrightarrow> affectedNodes (analyzeDeletionImpact sys L) = []
          \<and> cascadingDeletes (analyzeDeletionImpact sys L) = []
          \<and> totalNodesDeleted (analyzeDeletionImpact sys L) = 0)"
proof -
  let ?match = "\<lambda>l. l \<noteq> L
      \<and> (\<exists>p q. strip_known_extension l = p @ replace_first ''.txt'' [] L @ q)"
  have lower: "{l \<in> input_text_labels sys. ?match l}
      \<subseteq> set (cascadingDeletes (analyzeDeletionImpact sys L))"
    unfolding impact_cascading_set using getAllLabelsInSystem_lower [of sys] by blast
  have upper: "set (cascadingDeletes (analyzeDeletionImpact sys L))
      \<subseteq> {l \<in> labels_in_stores sys. ?match l}"
    unfolding impact_cascading_set using getAllLabelsInSystem_upper [of sys] by blast
  have d: "distinct (cascadingDeletes (analyzeDeletionImpact sys L))"
    by (simp add: impact_cascading getAllLabelsInSystem_def distinct_uniq)
  have a: "affectedNodes (analyzeDeletionImpact sys L) = []
      \<and> totalNodesDeleted (analyzeDeletionImpact sys L) = 0"
    if "\<not> list_ex (\<lambda>n. nodeUsesLabel n (replace_first ''.txt'' [] L)) (allNodes sys)"
  proof -
    from that have "filter (\<lambda>n. nodeUsesLabel n (replace_first ''.txt'' [] L)) (allNodes sys) = []"
      by (simp add: list_ex_iff filter_empty_conv)
    moreover from that have "filter (\<lambda>n. nodeUsesLabel n (replace_first ''.txt'' [] L)
          \<and> willBeDeleted (analyzeNodeDeletion n (replace_first ''.txt'' [] L))) (allNodes sys) = []"
      by (simp add: list_ex_iff filter_empty_conv)
    ultimately show ?thesis by (simp add: impact_affected impact_total)
  qed
  have e: "cascadingDeletes (analyzeDeletionImpact sys L) = []"
    if "{l \<in> labels_in_stores sys. ?match l} = {}"
    using upper that by (metis set_empty subset_empty)
  from lower upper d a e show ?thesis by blast
qed

theorem analyzeDeletionImpact_cascading_witness:
  "\<not> list_ex (\<lambda>n. nodeUsesLabel n (replace_first ''.txt'' [] ''A'')) (allNodes example_system)
   \<and> {l \<in> labels_in_stores example_system. l \<noteq> ''A''
         \<and> (\<exists>p q. strip_known_extension l = p @ replace_first ''.txt'' [] ''A'' @ q)} = {}
   \<and> affectedNodes (analyzeDeletionImpact example_system ''A'') = []
   \<and> cascadingDeletes (analyzeDeletionImpact example_system ''A'') = []
   \<and> totalNodesDeleted (analyzeDeletionImpact example_system ''A'') = 0"
proof -
  have h1: "\<not> list_ex (\<lambda>n. nodeUsesLabel n (replace_first ''.txt'' [] ''A''))
      (allNodes example_system)"
    by (simp add: example_system_def)
  have "filter (\<lambda>l. l \<noteq> ''A''
        \<and> str_includes (strip_known_extension l) (replace_first ''.txt'' [] ''A''))
      [''A'', ''B'', ''B.txt'', ''B.pdf''] = []"
    by (simp add: strip_known_extension_eval)
  then have "{l \<in> set [''A'', ''B'', ''B.txt'', ''B.pdf'']. l \<noteq> ''A''
      \<and> str_includes (strip_known_extension l) (replace_first ''.txt'' [] ''A'')} = {}"
    unfolding set_filter [symmetric] by (simp only: set_empty)
  then have h2: "{l \<in> labels_in_stores example_system. l \<noteq> ''A''
      \<and> (\<exists>p q. strip_known_extension l = p @ replace_first ''.txt'' [] ''A'' @ q)} = {}"
    unfolding example_stores str_includes_iff .
  from analyzeDeletionImpact_cascading [of example_system "''A''"] h1 h2 show ?thesis by blast
qed

text \<open>
  The comments of \<^verbatim>\<open>getAllLabelsInSystem\<close> announce the labels of ``all sources
  (InputFiles, TextFiles, OutputZone)'', but the branch for the output zone asks for a method
  \<^verbatim>\<open>getAllLabels\<close> that class \<^verbatim>\<open>OutputZone\<close> does not define. For an object of that class
  the branch never runs, and a label that only the output zone has is not listed, whatever
  its name: here \<open>A.pdf\<close> when \<open>A\<close> is deleted. The amended claim above is silent on such
  labels.
\<close>

lemma OutputZone_labels_not_read:
  assumes "outputZone sys = Some (OutputZone outs)"
  shows "set (getAllLabelsInSystem sys) = input_text_labels sys"
  using assms
  by (auto simp: getAllLabelsInSystem_def input_text_labels_def OutputZone_def set_uniq
      split: option.splits)

lemma OutputZone_entry_not_cascading:
  "cascadingDeletes (analyzeDeletionImpact
      \<lparr>allNodes = [], allConnections = [], inputFilesManager = Some [\<lparr>itemLabel = ''A''\<rparr>],
       textFilesManager = Some [],
       outputZone = Some (OutputZone [\<lparr>systemName = ''A.pdf''\<rparr>])\<rparr> ''A'') = []"
  by (simp add: impact_cascading getAllLabelsInSystem_def OutputZone_def uniq_def)

subsection \<open>Which nodes are deleted entirely\<close>

lemma remaining_count:
  "length (filter (\<lambda>x. \<not> P x) xs) = length xs - length (filter P xs)"
  using sum_length_filter_compl [of P xs] by simp

text \<open>
  The minimum of a type, as the table of the analysis has it: 2 for \<open>join\<close>, 1 for every
  other type, and none for a name inherited from \<^verbatim>\<open>Object.prototype\<close>.
\<close>

lemma cdm_minInputs:
  "t \<notin> set object_prototype_names
   \<Longrightarrow> mm_minInputs (cdm_getInputRules t) = Some (if t = ''join'' then 2 else 1)"
  by (simp add: cdm_getInputRules_def minMax_def)

lemma cdm_minInputs_inherited_all:
  "\<forall>t \<in> set object_prototype_names. mm_minInputs (cdm_getInputRules t) = None"
  by (simp add: cdm_getInputRules_def object_prototype_names_def)

lemma cdm_minInputs_inherited:
  "t \<in> set object_prototype_names \<Longrightarrow> mm_minInputs (cdm_getInputRules t) = None"
  using cdm_minInputs_inherited_all by blast

lemma willBeDeleted_iff:
  "willBeDeleted (analyzeNodeDeletion n b)
     = (case mm_minInputs (cdm_getInputRules (nodeType n)) of
          None \<Rightarrow> False
        | Some m \<Rightarrow>
            length (currentInputs n)
              - length (filter (\<lambda>input. replace_first ''.txt'' [] input = b) (currentInputs n))
            < m)"
  by (simp add: analyzeNodeDeletion_def Let_def remaining_count split: option.splits)

lemma reason_iff:
  "(ni_reason (analyzeNodeDeletion n b) = ''Node will continue with remaining inputs'')
     = (\<not> willBeDeleted (analyzeNodeDeletion n b))"
  by (simp add: analyzeNodeDeletion_def Let_def)

lemma uses_label_count:
  "nodeUsesLabel n b \<Longrightarrow>
   0 < length (filter (\<lambda>input. replace_first ''.txt'' [] input = b) (currentInputs n))"
  by (auto simp: nodeUsesLabel_def currentInputs_def list_ex_iff filter_empty_conv
      split: option.splits)

text \<open>
  The analysis has its own copy of the table of minimum input counts; on the node types of
  the node store's table the two copies give the same minimum.
\<close>

lemma minInputs_tables_agree:
  "t \<in> set [''pdf2text'', ''audio2text'', ''image2text'', ''video2text'', ''summarizer'',
      ''translator'', ''analyzer'', ''join'', ''text2pdf'', ''text2docx'', ''text2template'']
   \<Longrightarrow> mm_minInputs (cdm_getInputRules t) = minInputs (ndm_getInputRules t)"
  by (auto simp: cdm_getInputRules_def ndm_getInputRules_def minMax_def rule_def
      object_prototype_names_def)

text \<open>
  The node store gives a label only to a node whose type accepts some kind of file. For
  every such type the table of the node store has the same minimum: 2 for \<open>join\<close>, 1
  otherwise.
\<close>

lemma ndm_minInputs_accepting:
  assumes "acceptedTypes (ndm_getInputRules t) = Some accepted" and "accepted \<noteq> []"
  shows "minInputs (ndm_getInputRules t) = Some (if t = ''join'' then 2 else 1)"
  using assms
  by (simp add: ndm_getInputRules_def rule_def split: option.splits if_splits)

definition example_join_system :: cascadingDeleteManager where
  "example_join_system =
     \<lparr>allNodes = [example_join_node], allConnections = [],
      inputFilesManager = Some [],
      textFilesManager = Some [\<lparr>itemLabel = ''A.txt''\<rparr>, \<lparr>itemLabel = ''B.txt''\<rparr>],
      outputZone = Some (OutputZone [])\<rparr>"

text \<open>
  Claim C3. The affected nodes of a deletion are the nodes that use the label, each with
  its analysis. For a node whose type is not one of the names that every object inherits
  from \<^verbatim>\<open>Object.prototype\<close> (no tool type is one), the minimum of the type is 2 for
  \<open>join\<close> and 1 otherwise,
  which is also the minimum that the table of the node store has for every type that
  accepts inputs, and the analysis marks the node as deleted entirely exactly when the
  number of its current inputs, less those that name the deleted label (with or without
  \<^verbatim>\<open>.txt\<close>), is below that minimum, and as continuing with the remaining inputs otherwise.
  In particular a \<open>join\<close> node, the type with minimum 2, that uses the label and has
  exactly two inputs is deleted entirely.
\<close>

theorem analyzeNodeDeletion_willBeDeleted:
  assumes "nodeType n \<notin> set object_prototype_names"
  shows "affectedNodes (analyzeDeletionImpact sys L)
     = map (\<lambda>n. analyzeNodeDeletion n (replace_first ''.txt'' [] L))
         (filter (\<lambda>n. nodeUsesLabel n (replace_first ''.txt'' [] L)) (allNodes sys))
   \<and> mm_minInputs (cdm_getInputRules (nodeType n))
       = Some (if nodeType n = ''join'' then 2 else 1)
   \<and> ((\<exists>accepted. acceptedTypes (ndm_getInputRules (nodeType n)) = Some accepted
          \<and> accepted \<noteq> [])
      \<longrightarrow> minInputs (ndm_getInputRules (nodeType n))
            = Some (if nodeType n = ''join'' then 2 else 1))
   \<and> willBeDeleted (analyzeNodeDeletion n b)
       = (length (currentInputs n)
            - length (filter (\<lambda>input. replace_first ''.txt'' [] input = b) (currentInputs n))
          < (if nodeType n = ''join'' then 2 else 1))
   \<and> (ni_reason (analyzeNodeDeletion n b) = ''Node will continue with remaining inputs'')
       = (\<not> willBeDeleted (analyzeNodeDeletion n b))
   \<and> (nodeUsesLabel n b \<and> length (currentInputs n) = 2 \<and> nodeType n = ''join''
      \<longrightarrow> willBeDeleted (analyzeNodeDeletion n b))"
proof -
  note m = cdm_minInputs [OF assms]
  have w: "willBeDeleted (analyzeNodeDeletion n b)
       = (length (currentInputs n)
            - length (filter (\<lambda>input. replace_first ''.txt'' [] input = b) (currentInputs n))
          < (if nodeType n = ''join'' then 2 else 1))"
    unfolding willBeDeleted_iff m by simp
  have p: "willBeDeleted (analyzeNodeDeletion n b)"
    if "nodeUsesLabel n b" "length (currentInputs n) = 2" "nodeType n = ''join''"
    using uses_label_count [OF that(1)] that(2,3) unfolding w by simp
  have a: "minInputs (ndm_getInputRules (nodeType n))
      = Some (if nodeType n = ''join'' then 2 else 1)"
    if "\<exists>accepted. acceptedTypes (ndm_getInputRules (nodeType n)) = Some accepted
          \<and> accepted \<noteq> []"
    using that ndm_minInputs_accepting [of "nodeType n"] by blast
  from impact_affected [of sys L] m a w reason_iff [of n b] p show ?thesis by blast
qed

theorem analyzeNodeDeletion_willBeDeleted_witness:
  "nodeType example_join_node \<notin> set object_prototype_names
    \<and> nodeUsesLabel example_join_node ''A'' \<and> length (currentInputs example_join_node) = 2
    \<and> nodeType example_join_node = ''join''
    \<and> willBeDeleted (analyzeNodeDeletion example_join_node ''A'')
    \<and> map willBeDeleted (affectedNodes (analyzeDeletionImpact example_join_system ''A.txt''))
        = [True]"
proof -
  have t: "nodeType example_join_node \<notin> set object_prototype_names"
    by (simp add: example_join_node_def object_prototype_names_def)
  have u: "nodeUsesLabel example_join_node ''A''"
    by (simp add: nodeUsesLabel_def example_join_node_def)
  have l: "length (currentInputs example_join_node) = 2"
    by (simp add: currentInputs_def example_join_node_def)
  have j: "nodeType example_join_node = ''join''"
    by (simp add: example_join_node_def)
  have b: "replace_first ''.txt'' [] ''A.txt'' = ''A''" by simp
  note inst = analyzeNodeDeletion_willBeDeleted
    [OF t, of example_join_system "''A.txt''" "''A''"]
  from inst u l j have w: "willBeDeleted (analyzeNodeDeletion example_join_node ''A'')"
    by blast
  from inst have "affectedNodes (analyzeDeletionImpact example_join_system ''A.txt'')
      = map (\<lambda>n. analyzeNodeDeletion n (replace_first ''.txt'' [] ''A.txt''))
          (filter (\<lambda>n. nodeUsesLabel n (replace_first ''.txt'' [] ''A.txt''))
             (allNodes example_join_system))"
    by blast
  with u w have "map willBeDeleted (affectedNodes (analyzeDeletionImpact example_join_system
      ''A.txt'')) = [True]"
    by (simp add: b example_join_system_def)
  with t u l j w show ?thesis by blast
qed

text \<open>
  A node whose type is a name inherited from \<^verbatim>\<open>Object.prototype\<close> is outside the tool
  catalogue; its type has no minimum, and the analysis never marks it as deleted.
\<close>

lemma analyzeNodeDeletion_inherited_type:
  assumes "nodeType n \<in> set object_prototype_names"
  shows "\<not> willBeDeleted (analyzeNodeDeletion n b)"
  unfolding willBeDeleted_iff cdm_minInputs_inherited [OF assms] by simp

section \<open>ToolFlowBuilder: workflow validation\<close>

text \<open>A workflow has its nodes and its connections; either may be missing.\<close>

record workflow =
  wf_nodes :: "node list option"
  wf_connections :: "connection list option"

definition wf_conns :: "workflow \<Rightarrow> connection list" where
  "wf_conns w = (case wf_connections w of None \<Rightarrow> [] | Some cs \<Rightarrow> cs)"

text \<open>
  \<^verbatim>\<open>detectWorkflowLoops\<close>: the inner function \<^verbatim>\<open>dfs\<close> with the two sets \<^verbatim>\<open>visited\<close> and
  \<^verbatim>\<open>recStack\<close> that it updates, here the state \<open>(visited, recStack)\<close> that it takes and
  returns. \<open>dfs_each\<close> is its loop over the connections that leave the node: a \<^verbatim>\<open>true\<close>
  from a call ends the loop and the calls around it at once, the stack left as it is.
\<close>

type_synonym dfs_state = "string set \<times> string set"

function dfs :: "connection list \<Rightarrow> string \<Rightarrow> dfs_state \<Rightarrow> bool \<times> dfs_state"
  and dfs_each :: "connection list \<Rightarrow> connection list \<Rightarrow> dfs_state \<Rightarrow> bool \<times> dfs_state"
where
  "dfs cs i (visited, recStack) =
     (if i \<in> recStack then (True, (visited, recStack))
      else if i \<in> visited then (False, (visited, recStack))
      else
        let (found, (visited', recStack')) =
              dfs_each cs (filter (\<lambda>c. fromId c = i) cs) (insert i visited, insert i recStack)
        in if found then (True, (visited', recStack'))
           else (False, (visited', recStack' - {i})))"
| "dfs_each cs [] st = (False, st)"
| "dfs_each cs (conn # conns) st =
     (let (found, st') = dfs cs (toId conn) st
      in if found then (True, st') else dfs_each cs conns st')"
  by pat_completeness auto

text \<open>Wherever \<^verbatim>\<open>dfs\<close> is defined, it takes nothing out of \<^verbatim>\<open>visited\<close>.\<close>

lemma dfs_visited_mono_dom:
  "dfs_dfs_each_dom (Inl (cs, i, st)) \<Longrightarrow> fst st \<subseteq> fst (snd (dfs cs i st))"
  "dfs_dfs_each_dom (Inr (cs, conns, st)) \<Longrightarrow> fst st \<subseteq> fst (snd (dfs_each cs conns st))"
proof (induct rule: dfs_dfs_each.pinduct)
  case (1 cs i visited recStack)
  then show ?case
    by (auto simp: dfs.psimps split: prod.splits if_splits)
next
  case (2 cs st)
  then show ?case by (simp add: dfs_each.psimps)
next
  case (3 cs conn conns st)
  obtain found st' where d: "dfs cs (toId conn) st = (found, st')" by (cases "dfs cs (toId conn) st")
  from 3(2) d have m1: "fst st \<subseteq> fst st'" by simp
  show ?case
  proof (cases found)
    case True
    with d m1 3(1) show ?thesis by (simp add: dfs_each.psimps)
  next
    case False
    from 3(3) [OF refl d [symmetric] False] have "fst st' \<subseteq> fst (snd (dfs_each cs conns st'))" .
    with False d m1 3(1) show ?thesis by (auto simp: dfs_each.psimps)
  qed
qed

text \<open>
  Termination: a call of \<^verbatim>\<open>dfs\<close> that goes on adds its node to \<^verbatim>\<open>visited\<close>, no call takes
  a node out of it, and the nodes to visit are ends of connections or the start node.
\<close>

definition verts :: "connection list \<Rightarrow> string set" where
  "verts cs = fromId ` set cs \<union> toId ` set cs"

termination dfs
proof (relation "inv_image (less_than <*lex*> less_than)
    (\<lambda>x. case x of
        Inl (cs, i, st) \<Rightarrow> (card ((verts cs \<union> {i}) - fst st), 0)
      | Inr (cs, conns, st) \<Rightarrow> (card ((verts cs \<union> toId ` set conns) - fst st), Suc (length conns)))",
    goal_cases)
  case 1
  show ?case by (intro wf_inv_image wf_lex_prod wf_less_than)
next
  case (2 cs i visited recStack)
  have "(verts cs \<union> toId ` set (filter (\<lambda>c. fromId c = i) cs)) - insert i visited
          \<subset> (verts cs \<union> {i}) - visited"
    using 2 by (auto simp: verts_def)
  moreover have "finite ((verts cs \<union> {i}) - visited)" by (simp add: verts_def)
  ultimately show ?case by (simp add: psubset_card_mono)
next
  case (3 cs conn conns st)
  have "(verts cs \<union> {toId conn}) - fst st \<subseteq> (verts cs \<union> toId ` set (conn # conns)) - fst st"
    by auto
  moreover have "finite ((verts cs \<union> toId ` set (conn # conns)) - fst st)" by (simp add: verts_def)
  ultimately have "card ((verts cs \<union> {toId conn}) - fst st)
      \<le> card ((verts cs \<union> toId ` set (conn # conns)) - fst st)" by (rule card_mono [rotated])
  then show ?case by auto
next
  case (4 cs conn conns st x found st')
  from 4(1,2) have d: "dfs cs (toId conn) st = (found, st')" by simp
  from dfs_visited_mono_dom(1) [OF 4(4)] d have "fst st \<subseteq> fst st'" by simp
  then have "(verts cs \<union> toId ` set conns) - fst st'
      \<subseteq> (verts cs \<union> toId ` set (conn # conns)) - fst st"
    by auto
  moreover have "finite ((verts cs \<union> toId ` set (conn # conns)) - fst st)"
    by (simp add: verts_def)
  ultimately have "card ((verts cs \<union> toId ` set conns) - fst st')
      \<le> card ((verts cs \<union> toId ` set (conn # conns)) - fst st)" by (rule card_mono [rotated])
  then show ?case by auto
qed

declare dfs.simps [simp del]

subsection \<open>Cycle detection is correct\<close>

text \<open>
  The graph of a connection list has an edge from \<^verbatim>\<open>from\<close> to \<^verbatim>\<open>to\<close> for every connection.
  A node reaches a cycle when a path, possibly empty, leads from it to a node that lies on a
  cycle.
\<close>

definition edges :: "connection list \<Rightarrow> (string \<times> string) set" where
  "edges cs = (\<lambda>c. (fromId c, toId c)) ` set cs"

definition reaches_cycle :: "connection list \<Rightarrow> string \<Rightarrow> bool" where
  "reaches_cycle cs x = (\<exists>y. (x, y) \<in> (edges cs)\<^sup>* \<and> (y, y) \<in> (edges cs)\<^sup>+)"

lemma dfs_stack_restored:
  "dfs cs i st = (False, st') \<Longrightarrow> snd st' = snd st \<and> fst st \<subseteq> fst st'"
  "dfs_each cs conns st = (False, st') \<Longrightarrow> snd st' = snd st \<and> fst st \<subseteq> fst st'"
proof (induction cs i st and cs conns st arbitrary: st' and st' rule: dfs_dfs_each.induct)
  case (1 cs i visited recStack)
  show ?case
  proof (cases "i \<in> recStack \<or> i \<in> visited")
    case True
    with "1.prems" show ?thesis by (auto simp: dfs.simps split: if_splits)
  next
    case False
    obtain found v r where e: "dfs_each cs (filter (\<lambda>c. fromId c = i) cs)
        (insert i visited, insert i recStack) = (found, (v, r))"
      by (metis prod.exhaust)
    with False "1.prems" have nf: "\<not> found" and st': "st' = (v, r - {i})"
      by (auto simp: dfs.simps split: if_splits)
    from "1.IH" [of "(v, r)"] False e nf have "r = insert i recStack" "insert i visited \<subseteq> v"
      by auto
    with False st' show ?thesis by auto
  qed
next
  case (2 cs st)
  then show ?case by simp
next
  case (3 cs conn conns st)
  obtain found st1 where d: "dfs cs (toId conn) st = (found, st1)" by (metis prod.exhaust)
  with "3.prems" have nf: "\<not> found" and r: "dfs_each cs conns st1 = (False, st')"
    by (auto split: if_splits)
  from "3.IH"(1) [of st1] d nf have a: "snd st1 = snd st \<and> fst st \<subseteq> fst st1" by simp
  from "3.IH"(2) [OF refl d [symmetric] nf r] have "snd st' = snd st1 \<and> fst st1 \<subseteq> fst st'" .
  with a show ?case by auto
qed

text \<open>The loop over \<^verbatim>\<open>workflow.nodes\<close>.\<close>

fun loops_from :: "connection list \<Rightarrow> node list \<Rightarrow> dfs_state \<Rightarrow> bool \<times> dfs_state" where
  "loops_from cs [] st = (False, st)"
| "loops_from cs (n # ns) st =
     (if nodeId n \<notin> fst st then
        (let (found, st') = dfs cs (nodeId n) st
         in if found then (True, st') else loops_from cs ns st')
      else loops_from cs ns st)"

definition detectWorkflowLoops :: "workflow \<Rightarrow> js_error + bool" where
  "detectWorkflowLoops w =
     (case wf_nodes w of
        None \<Rightarrow> Inl TypeError
      | Some ns \<Rightarrow> Inr (fst (loops_from (wf_conns w) ns ({}, {}))))"

lemma edge_of_conn: "c \<in> set cs \<Longrightarrow> (fromId c, toId c) \<in> edges cs"
  by (auto simp: edges_def)

lemma reaches_cycle_step:
  "(x, y) \<in> edges cs \<Longrightarrow> reaches_cycle cs y \<Longrightarrow> reaches_cycle cs x"
  unfolding reaches_cycle_def by (meson converse_rtrancl_into_rtrancl)

lemma reaches_cycle_succ:
  assumes "reaches_cycle cs x"
  shows "\<exists>c \<in> set cs. fromId c = x \<and> reaches_cycle cs (toId c)"
proof -
  from assms obtain y where xy: "(x, y) \<in> (edges cs)\<^sup>*" and yy: "(y, y) \<in> (edges cs)\<^sup>+"
    by (auto simp: reaches_cycle_def)
  have "\<exists>m. (x, m) \<in> edges cs \<and> reaches_cycle cs m"
  proof (cases "x = y")
    case True
    with yy obtain m where "(x, m) \<in> edges cs" "(m, x) \<in> (edges cs)\<^sup>*"
      by (meson tranclD)
    with True yy show ?thesis by (auto simp: reaches_cycle_def)
  next
    case False
    with xy obtain m where "(x, m) \<in> edges cs" "(m, y) \<in> (edges cs)\<^sup>*"
      by (meson converse_rtranclE)
    with yy show ?thesis by (auto simp: reaches_cycle_def)
  qed
  then show ?thesis by (auto simp: edges_def)
qed

lemma dfs_sound:
  "dfs cs i st = (True, st') \<Longrightarrow> \<forall>x \<in> snd st. (x, i) \<in> (edges cs)\<^sup>+ \<Longrightarrow> reaches_cycle cs i"
  "dfs_each cs conns st = (True, st') \<Longrightarrow> set conns \<subseteq> set cs \<Longrightarrow>
     \<forall>c \<in> set conns. \<forall>x \<in> snd st. (x, toId c) \<in> (edges cs)\<^sup>+ \<Longrightarrow>
     \<exists>c \<in> set conns. reaches_cycle cs (toId c)"
proof (induction cs i st and cs conns st arbitrary: st' and st' rule: dfs_dfs_each.induct)
  case (1 cs i visited recStack)
  show ?case
  proof (cases "i \<in> recStack")
    case True
    with "1.prems"(2) have "(i, i) \<in> (edges cs)\<^sup>+" by simp
    then show ?thesis by (auto simp: reaches_cycle_def)
  next
    case False
    with "1.prems"(1) have nv: "i \<notin> visited" by (auto simp: dfs.simps split: if_splits)
    let ?succ = "filter (\<lambda>c. fromId c = i) cs"
    obtain found v r where e: "dfs_each cs ?succ (insert i visited, insert i recStack) = (found, (v, r))"
      by (metis prod.exhaust)
    with False nv "1.prems"(1) have f: found by (auto simp: dfs.simps split: if_splits)
    have pre: "\<forall>c \<in> set ?succ. \<forall>x \<in> snd (insert i visited, insert i recStack).
        (x, toId c) \<in> (edges cs)\<^sup>+"
    proof (intro ballI)
      fix c x assume c: "c \<in> set ?succ" and x: "x \<in> snd (insert i visited, insert i recStack)"
      from c have ed: "(i, toId c) \<in> edges cs" using edge_of_conn [of c cs] by auto
      show "(x, toId c) \<in> (edges cs)\<^sup>+"
      proof (cases "x = i")
        case True
        with ed show ?thesis by auto
      next
        case False
        with x "1.prems"(2) have "(x, i) \<in> (edges cs)\<^sup>+" by simp
        with ed show ?thesis by (meson trancl.trancl_into_trancl)
      qed
    qed
    from "1.IH" [OF False nv _ _ pre, of "(v, r)"] e f
    obtain c where "c \<in> set ?succ" "reaches_cycle cs (toId c)" by auto
    then show ?thesis using reaches_cycle_step [of i "toId c" cs] edge_of_conn [of c cs] by auto
  qed
next
  case (2 cs st)
  then show ?case by simp
next
  case (3 cs conn conns st)
  obtain found st1 where d: "dfs cs (toId conn) st = (found, st1)" by (metis prod.exhaust)
  show ?case
  proof (cases found)
    case True
    from "3.IH"(1) [of st1] d True "3.prems"(3) have "reaches_cycle cs (toId conn)" by simp
    then show ?thesis by auto
  next
    case False
    with d "3.prems"(1) have r: "dfs_each cs conns st1 = (True, st')" by simp
    from dfs_stack_restored(1) [of cs "toId conn" st st1] d False have "snd st1 = snd st" by simp
    with "3.prems"(3) have "\<forall>c \<in> set conns. \<forall>x \<in> snd st1. (x, toId c) \<in> (edges cs)\<^sup>+" by simp
    from "3.IH"(2) [OF refl d [symmetric] False r _ this] "3.prems"(2) show ?thesis by auto
  qed
qed

lemma dfs_complete:
  "dfs cs i st = (False, st') \<Longrightarrow> \<forall>x \<in> fst st - snd st. \<not> reaches_cycle cs x \<Longrightarrow>
     (\<forall>x \<in> fst st' - snd st. \<not> reaches_cycle cs x) \<and> \<not> reaches_cycle cs i"
  "dfs_each cs conns st = (False, st') \<Longrightarrow> \<forall>x \<in> fst st - snd st. \<not> reaches_cycle cs x \<Longrightarrow>
     (\<forall>x \<in> fst st' - snd st. \<not> reaches_cycle cs x) \<and> (\<forall>c \<in> set conns. \<not> reaches_cycle cs (toId c))"
proof (induction cs i st and cs conns st arbitrary: st' and st' rule: dfs_dfs_each.induct)
  case (1 cs i visited recStack)
  from "1.prems"(1) have nr: "i \<notin> recStack" by (auto simp: dfs.simps split: if_splits)
  show ?case
  proof (cases "i \<in> visited")
    case True
    with nr "1.prems" show ?thesis by (auto simp: dfs.simps)
  next
    case False
    let ?succ = "filter (\<lambda>c. fromId c = i) cs"
    obtain found v r where e: "dfs_each cs ?succ (insert i visited, insert i recStack) = (found, (v, r))"
      by (metis prod.exhaust)
    with False nr "1.prems"(1) have nf: "\<not> found" and st': "st' = (v, r - {i})"
      by (auto simp: dfs.simps split: if_splits)
    from dfs_stack_restored(2) [of cs ?succ "(insert i visited, insert i recStack)" "(v, r)"] e nf
    have r: "r = insert i recStack" by simp
    have pre: "\<forall>x \<in> fst (insert i visited, insert i recStack) - snd (insert i visited, insert i recStack).
        \<not> reaches_cycle cs x"
      using "1.prems"(2) by auto
    from "1.IH" [OF nr False _ pre, of "(v, r)"] e nf
    have a: "\<forall>x \<in> v - insert i recStack. \<not> reaches_cycle cs x"
      and b: "\<forall>c \<in> set ?succ. \<not> reaches_cycle cs (toId c)" by auto
    from b have gi: "\<not> reaches_cycle cs i" using reaches_cycle_succ [of cs i] by auto
    with a st' r nr show ?thesis by auto
  qed
next
  case (2 cs st)
  then show ?case by simp
next
  case (3 cs conn conns st)
  obtain found st1 where d: "dfs cs (toId conn) st = (found, st1)" by (metis prod.exhaust)
  with "3.prems"(1) have nf: "\<not> found" and r: "dfs_each cs conns st1 = (False, st')"
    by (auto split: if_splits)
  from dfs_stack_restored(1) [of cs "toId conn" st st1] d nf have s: "snd st1 = snd st" by simp
  from "3.IH"(1) [of st1] d nf "3.prems"(2)
  have a: "\<forall>x \<in> fst st1 - snd st. \<not> reaches_cycle cs x" and b: "\<not> reaches_cycle cs (toId conn)"
    by simp_all
  from a s have "\<forall>x \<in> fst st1 - snd st1. \<not> reaches_cycle cs x" by simp
  from "3.IH"(2) [OF refl d [symmetric] nf r this] s b show ?case by auto
qed

lemma loops_from_correct:
  "snd st = {} \<Longrightarrow> \<forall>x \<in> fst st. \<not> reaches_cycle cs x \<Longrightarrow>
   fst (loops_from cs ns st) = (\<exists>n \<in> set ns. reaches_cycle cs (nodeId n))"
proof (induction ns arbitrary: st)
  case Nil
  show ?case by simp
next
  case (Cons n ns)
  show ?case
  proof (cases "nodeId n \<in> fst st")
    case True
    with Cons.prems have "\<not> reaches_cycle cs (nodeId n)" by simp
    with True Cons.IH [OF Cons.prems] show ?thesis by simp
  next
    case False
    obtain found st1 where d: "dfs cs (nodeId n) st = (found, st1)" by (metis prod.exhaust)
    show ?thesis
    proof (cases found)
      case True
      with d Cons.prems(1) have "reaches_cycle cs (nodeId n)"
        using dfs_sound(1) [of cs "nodeId n" st st1] by simp
      with True d False show ?thesis by simp
    next
      case nf: False
      from dfs_stack_restored(1) [of cs "nodeId n" st st1] d nf Cons.prems(1)
      have s: "snd st1 = {}" by simp
      from dfs_complete(1) [of cs "nodeId n" st st1] d nf Cons.prems
      have a: "\<forall>x \<in> fst st1. \<not> reaches_cycle cs x" and b: "\<not> reaches_cycle cs (nodeId n)"
        by simp_all
      from Cons.IH [OF s a] d nf False b show ?thesis by simp
    qed
  qed
qed

lemma detectWorkflowLoops_iff:
  "wf_nodes w = Some ns \<Longrightarrow>
   detectWorkflowLoops w = Inr (\<exists>n \<in> set ns. reaches_cycle (wf_conns w) (nodeId n))"
  by (simp add: detectWorkflowLoops_def loops_from_correct)

lemma cycle_source:
  assumes "(y, y) \<in> (edges cs)\<^sup>+"
  shows "\<exists>c \<in> set cs. fromId c = y"
proof -
  from assms obtain m where "(y, m) \<in> edges cs" by (meson tranclD)
  then show ?thesis by (auto simp: edges_def)
qed

text \<open>
  Claim C5. For a workflow with a node list, cycle detection returns false when the
  connection graph has no cycle, and true when it has one and every connection starts at a
  node of the workflow, as all do in a node-to-node connection list. In general it returns
  whether some node of the workflow lies on a cycle or reaches one.
\<close>

theorem detectWorkflowLoops_correct:
  assumes "wf_nodes w = Some ns"
  shows "(\<not> (\<exists>y. (y, y) \<in> (edges (wf_conns w))\<^sup>+) \<longrightarrow> detectWorkflowLoops w = Inr False)
    \<and> ((\<forall>c \<in> set (wf_conns w). fromId c \<in> nodeId ` set ns)
         \<and> (\<exists>y. (y, y) \<in> (edges (wf_conns w))\<^sup>+) \<longrightarrow> detectWorkflowLoops w = Inr True)
    \<and> detectWorkflowLoops w = Inr (\<exists>n \<in> set ns. \<exists>y. (nodeId n, y) \<in> (edges (wf_conns w))\<^sup>*
          \<and> (y, y) \<in> (edges (wf_conns w))\<^sup>+)"
proof (intro conjI impI)
  assume "\<not> (\<exists>y. (y, y) \<in> (edges (wf_conns w))\<^sup>+)"
  then show "detectWorkflowLoops w = Inr False"
    by (simp add: detectWorkflowLoops_iff [OF assms] reaches_cycle_def)
next
  assume a: "(\<forall>c \<in> set (wf_conns w). fromId c \<in> nodeId ` set ns)
         \<and> (\<exists>y. (y, y) \<in> (edges (wf_conns w))\<^sup>+)"
  then obtain y where yy: "(y, y) \<in> (edges (wf_conns w))\<^sup>+" by blast
  with cycle_source a obtain n where "n \<in> set ns" "nodeId n = y" by (metis imageE)
  with yy have "\<exists>n \<in> set ns. reaches_cycle (wf_conns w) (nodeId n)"
    by (auto simp: reaches_cycle_def)
  then show "detectWorkflowLoops w = Inr True"
    by (simp add: detectWorkflowLoops_iff [OF assms])
next
  show "detectWorkflowLoops w = Inr (\<exists>n \<in> set ns. \<exists>y. (nodeId n, y) \<in> (edges (wf_conns w))\<^sup>*
          \<and> (y, y) \<in> (edges (wf_conns w))\<^sup>+)"
    by (simp add: detectWorkflowLoops_iff [OF assms] reaches_cycle_def)
qed

text \<open>The two graphs of the claim: the diamond and the three-node cycle.\<close>

definition mk_node :: "string \<Rightarrow> string \<Rightarrow> label list \<Rightarrow> node" where
  "mk_node i t ls =
     \<lparr>nodeId = i, nodeType = t, inputLabels = Some ls, outputLabels = Some [],
      userPrompt = Some [], customPrompt = None, fileInputs = None,
      isManuallyCreated = True, updatedAt = 0\<rparr>"

definition mk_conn :: "string \<Rightarrow> string \<Rightarrow> connection" where
  "mk_conn a b = \<lparr>fromId = a, toId = b, fileName = []\<rparr>"

definition diamond :: workflow where
  "diamond =
     \<lparr>wf_nodes = Some [mk_node ''X'' ''pdf2text'' [], mk_node ''Y'' ''summarizer'' [],
         mk_node ''Z'' ''translator'' [], mk_node ''W'' ''join'' []],
      wf_connections = Some [mk_conn ''X'' ''Y'', mk_conn ''X'' ''Z'', mk_conn ''Y'' ''W'',
         mk_conn ''Z'' ''W'']\<rparr>"

definition triangle :: workflow where
  "triangle =
     \<lparr>wf_nodes = Some [mk_node ''X'' ''summarizer'' [], mk_node ''Y'' ''summarizer'' [],
         mk_node ''Z'' ''summarizer'' []],
      wf_connections = Some [mk_conn ''X'' ''Y'', mk_conn ''Y'' ''Z'', mk_conn ''Z'' ''X'']\<rparr>"

lemma no_cycle_by_rank:
  assumes "\<forall>(a, b) \<in> E. f a < (f b :: nat)"
  shows "(y, y) \<notin> E\<^sup>+"
proof
  assume "(y, y) \<in> E\<^sup>+"
  moreover have "(a, b) \<in> E\<^sup>+ \<Longrightarrow> f a < f b" for a b
    by (induction rule: trancl.induct) (use assms in \<open>auto intro: less_trans\<close>)
  ultimately show False by blast
qed

lemma diamond_eval: "detectWorkflowLoops diamond = Inr False"
  by (simp add: detectWorkflowLoops_def diamond_def wf_conns_def mk_node_def mk_conn_def dfs.simps)

lemma triangle_eval: "detectWorkflowLoops triangle = Inr True"
  by (simp add: detectWorkflowLoops_def triangle_def wf_conns_def mk_node_def mk_conn_def dfs.simps)

lemma diamond_acyclic: "\<not> (\<exists>y. (y, y) \<in> (edges (wf_conns diamond))\<^sup>+)"
proof -
  let ?f = "\<lambda>x. if x = ''X'' then 0 else if x = ''W'' then 2 else (1::nat)"
  have "\<forall>(a, b) \<in> edges (wf_conns diamond). ?f a < ?f b"
    by (simp add: edges_def wf_conns_def diamond_def mk_conn_def)
  from no_cycle_by_rank [OF this] show ?thesis by blast
qed

lemma triangle_cyclic: "\<exists>y. (y, y) \<in> (edges (wf_conns triangle))\<^sup>+"
proof -
  have "(''X'', ''Y'') \<in> edges (wf_conns triangle)" "(''Y'', ''Z'') \<in> edges (wf_conns triangle)"
    "(''Z'', ''X'') \<in> edges (wf_conns triangle)"
    by (simp_all add: edges_def wf_conns_def triangle_def mk_conn_def)
  then have "(''X'', ''X'') \<in> (edges (wf_conns triangle))\<^sup>+"
    by (meson trancl.r_into_trancl trancl.trancl_into_trancl)
  then show ?thesis by blast
qed

theorem detectWorkflowLoops_correct_witness:
  "wf_nodes diamond = Some (the (wf_nodes diamond))
    \<and> \<not> (\<exists>y. (y, y) \<in> (edges (wf_conns diamond))\<^sup>+)
    \<and> detectWorkflowLoops diamond = Inr False
    \<and> wf_nodes triangle = Some (the (wf_nodes triangle))
    \<and> fromId ` set (wf_conns triangle) \<subseteq> nodeId ` set (the (wf_nodes triangle))
    \<and> (\<exists>y. (y, y) \<in> (edges (wf_conns triangle))\<^sup>+)
    \<and> detectWorkflowLoops triangle = Inr True"
proof -
  have d: "wf_nodes diamond = Some (the (wf_nodes diamond))" by (simp add: diamond_def)
  have t: "wf_nodes triangle = Some (the (wf_nodes triangle))" by (simp add: triangle_def)
  have n: "\<forall>c \<in> set (wf_conns triangle). fromId c \<in> nodeId ` set (the (wf_nodes triangle))"
    by (simp add: triangle_def wf_conns_def mk_conn_def mk_node_def)
  from detectWorkflowLoops_correct [OF d] diamond_acyclic
  have "detectWorkflowLoops diamond = Inr False" by blast
  moreover from detectWorkflowLoops_correct [OF t] n triangle_cyclic
  have "detectWorkflowLoops triangle = Inr True" by blast
  moreover from n
  have "fromId ` set (wf_conns triangle) \<subseteq> nodeId ` set (the (wf_nodes triangle))"
    by blast
  ultimately show ?thesis using d t diamond_acyclic triangle_cyclic by blast
qed

subsection \<open>Duplicate actions and the validation check\<close>

text \<open>\<^verbatim>\<open>arr.join(sep)\<close> on an array of strings.\<close>

fun join :: "string \<Rightarrow> string list \<Rightarrow> string" where
  "join sep [] = []"
| "join sep [x] = x"
| "join sep (x # y # ys) = x @ sep @ join sep (y # ys)"

text \<open>
  \<^verbatim>\<open>node.inputLabels?.sort()\<close> sorts the array of the node in place, when the node has one:
  the node after this step is \<open>sortInputLabels n\<close>. The key of a node is its type, a colon
  and its sorted labels joined by commas.
\<close>

definition sortInputLabels :: "node \<Rightarrow> node" where
  "sortInputLabels n = n\<lparr>inputLabels := map_option sort (inputLabels n)\<rparr>"

definition typeInputKey :: "node \<Rightarrow> string" where
  "typeInputKey n =
     (let inputKey = (case inputLabels n of None \<Rightarrow> [] | Some ls \<Rightarrow> join '','' ls)
      in nodeType n @ '':'' @ inputKey)"

text \<open>
  The loop of \<^verbatim>\<open>detectDuplicateActions\<close> over \<^verbatim>\<open>workflow.nodes\<close>, with the map
  \<^verbatim>\<open>nodesByInputs\<close>. It returns the answer and the nodes as the loop leaves them: the
  \<^verbatim>\<open>return true\<close> at the first repeated key ends the loop before the later nodes.
\<close>

fun duplicates_from :: "(string \<rightharpoonup> node) \<Rightarrow> node list \<Rightarrow> bool \<times> node list" where
  "duplicates_from nodesByInputs [] = (False, [])"
| "duplicates_from nodesByInputs (n # ns) =
     (let n' = sortInputLabels n; key = typeInputKey n' in
      if nodesByInputs key \<noteq> None then (True, n' # ns)
      else
        let (dup, ns') = duplicates_from (nodesByInputs(key \<mapsto> n')) ns
        in (dup, n' # ns'))"

definition detectDuplicateActions :: "workflow \<Rightarrow> js_error + bool \<times> workflow" where
  "detectDuplicateActions w =
     (case wf_nodes w of
        None \<Rightarrow> Inl TypeError
      | Some ns \<Rightarrow>
          let (dup, ns') = duplicates_from Map.empty ns
          in Inr (dup, w\<lparr>wf_nodes := Some ns'\<rparr>))"

text \<open>
  \<^verbatim>\<open>validateWorkflow\<close> reads the uploaded files of the upload zone and the output entries
  of the output zone, here its first two arguments. It returns its answer and the workflow,
  whose nodes \<^verbatim>\<open>detectDuplicateActions\<close> may have changed.
\<close>

definition hasInputs :: "node \<Rightarrow> bool" where
  "hasInputs n =
     ((case fileInputs n of None \<Rightarrow> False | Some fs \<Rightarrow> fs \<noteq> [])
      \<or> (case inputLabels n of None \<Rightarrow> False | Some ls \<Rightarrow> ls \<noteq> []))"

definition validateWorkflow ::
  "fileInput list \<Rightarrow> outputEntry list \<Rightarrow> workflow option \<Rightarrow> js_error + bool \<times> workflow option" where
  "validateWorkflow files outs wo =
     (if files = [] then Inr (False, wo)
      else if outs = [] then Inr (False, wo)
      else
        case wo of
          None \<Rightarrow> Inr (True, wo)
        | Some w \<Rightarrow>
            (case wf_nodes w of
               None \<Rightarrow> Inr (True, wo)
             | Some ns \<Rightarrow>
                 if ns = [] then Inr (True, wo)
                 else if filter hasInputs ns = [] then Inr (False, wo)
                 else
                   (case detectWorkflowLoops w of
                      Inl e \<Rightarrow> Inl e
                    | Inr hasLoops \<Rightarrow>
                        (case detectDuplicateActions w of
                           Inl e \<Rightarrow> Inl e
                         | Inr (hasDuplicates, w') \<Rightarrow>
                             Inr (\<not> hasLoops \<and> \<not> hasDuplicates, Some w')))))"

text \<open>
  The shape of the result: the loop sorts a first stretch of \<open>k\<close> nodes and leaves the rest.
  When it finds no duplicate the stretch is the whole list; when it finds one, the keys of
  the first \<open>k - 1\<close> nodes are new and pairwise different and the key of node \<open>k\<close> is one of
  them, or a key of the map that the loop started with.
\<close>

lemma duplicates_from_shape:
  "\<exists>k. k \<le> length ns
     \<and> snd (duplicates_from m ns) = map sortInputLabels (take k ns) @ drop k ns
     \<and> (\<not> fst (duplicates_from m ns) \<longrightarrow> k = length ns)
     \<and> (fst (duplicates_from m ns) \<longrightarrow>
          0 < k
          \<and> distinct (take (k - 1) (map (typeInputKey \<circ> sortInputLabels) ns))
          \<and> set (take (k - 1) (map (typeInputKey \<circ> sortInputLabels) ns)) \<inter> dom m = {}
          \<and> map (typeInputKey \<circ> sortInputLabels) ns ! (k - 1)
              \<in> set (take (k - 1) (map (typeInputKey \<circ> sortInputLabels) ns)) \<union> dom m)"
proof (induction ns arbitrary: m)
  case Nil
  show ?case by simp
next
  case (Cons n ns)
  let ?n' = "sortInputLabels n" and ?key = "typeInputKey (sortInputLabels n)"
  let ?keys = "map (typeInputKey \<circ> sortInputLabels) ns"
  show ?case
  proof (cases "m ?key \<noteq> None")
    case True
    then have "duplicates_from m (n # ns) = (True, ?n' # ns)" by (simp add: Let_def)
    moreover from True have "?key \<in> dom m" by (simp add: domIff)
    ultimately show ?thesis by (intro exI [of _ 1]) simp
  next
    case False
    let ?m' = "m(?key \<mapsto> ?n')"
    from Cons.IH [of ?m'] obtain k where k: "k \<le> length ns"
      "snd (duplicates_from ?m' ns) = map sortInputLabels (take k ns) @ drop k ns"
      "\<not> fst (duplicates_from ?m' ns) \<longrightarrow> k = length ns"
      and d: "fst (duplicates_from ?m' ns) \<longrightarrow>
          0 < k \<and> distinct (take (k - 1) ?keys) \<and> set (take (k - 1) ?keys) \<inter> dom ?m' = {}
          \<and> ?keys ! (k - 1) \<in> set (take (k - 1) ?keys) \<union> dom ?m'"
      by blast
    from False have eq: "duplicates_from m (n # ns)
        = (fst (duplicates_from ?m' ns), ?n' # snd (duplicates_from ?m' ns))"
      by (simp add: Let_def split: prod.splits)
    have found: "fst (duplicates_from ?m' ns) \<longrightarrow>
        distinct (take (Suc k - 1) (map (typeInputKey \<circ> sortInputLabels) (n # ns)))
        \<and> set (take (Suc k - 1) (map (typeInputKey \<circ> sortInputLabels) (n # ns))) \<inter> dom m = {}
        \<and> map (typeInputKey \<circ> sortInputLabels) (n # ns) ! (Suc k - 1)
            \<in> set (take (Suc k - 1) (map (typeInputKey \<circ> sortInputLabels) (n # ns))) \<union> dom m"
    proof
      assume f: "fst (duplicates_from ?m' ns)"
      from d f have pos: "0 < k" and dist: "distinct (take (k - 1) ?keys)"
        and disj: "set (take (k - 1) ?keys) \<inter> dom ?m' = {}"
        and mem: "?keys ! (k - 1) \<in> set (take (k - 1) ?keys) \<union> dom ?m'"
        by blast+
      from pos obtain j where j: "k = Suc j" by (cases k) auto
      from False have nd: "?key \<notin> dom m" by (simp add: domIff)
      from disj have fresh: "?key \<notin> set (take j ?keys)" and disj': "set (take j ?keys) \<inter> dom m = {}"
        unfolding j by auto
      from mem have "?keys ! j \<in> set (take j ?keys) \<union> dom m \<union> {?key}"
        unfolding j by auto
      with dist fresh disj' nd
      show "distinct (take (Suc k - 1) (map (typeInputKey \<circ> sortInputLabels) (n # ns)))
        \<and> set (take (Suc k - 1) (map (typeInputKey \<circ> sortInputLabels) (n # ns))) \<inter> dom m = {}
        \<and> map (typeInputKey \<circ> sortInputLabels) (n # ns) ! (Suc k - 1)
            \<in> set (take (Suc k - 1) (map (typeInputKey \<circ> sortInputLabels) (n # ns))) \<union> dom m"
        unfolding j by auto
    qed
    from k found show ?thesis
      unfolding eq by (intro exI [of _ "Suc k"]) (simp del: duplicates_from.simps add: comp_def)
  qed
qed

lemma duplicates_from_iff:
  "fst (duplicates_from m ns)
     = (\<not> distinct (map (typeInputKey \<circ> sortInputLabels) ns)
        \<or> set (map (typeInputKey \<circ> sortInputLabels) ns) \<inter> dom m \<noteq> {})"
proof (induction ns arbitrary: m)
  case Nil
  show ?case by simp
next
  case (Cons n ns)
  let ?n' = "sortInputLabels n" and ?key = "typeInputKey (sortInputLabels n)"
  show ?case
  proof (cases "m ?key \<noteq> None")
    case True
    then show ?thesis by (auto simp: Let_def)
  next
    case False
    then have eq: "fst (duplicates_from m (n # ns)) = fst (duplicates_from (m(?key \<mapsto> ?n')) ns)"
      by (simp add: Let_def split: prod.splits)
    from False have nd: "?key \<notin> dom m" by (simp add: domIff)
    have R: "fst (duplicates_from (m(?key \<mapsto> ?n')) ns)
        = (\<not> distinct (map (typeInputKey \<circ> sortInputLabels) (n # ns))
           \<or> set (map (typeInputKey \<circ> sortInputLabels) (n # ns)) \<inter> dom m \<noteq> {})"
      unfolding Cons.IH [of "m(?key \<mapsto> ?n')"] using nd by auto
    show ?thesis unfolding eq by (rule R)
  qed
qed

definition empty_workflow :: workflow where
  "empty_workflow = \<lparr>wf_nodes = Some [], wf_connections = Some []\<rparr>"

text \<open>
  Claim C8 as stated fails: with an output entry but no uploaded file, a workflow with zero
  nodes is judged invalid, by the first check of \<^verbatim>\<open>validateWorkflow\<close>.
\<close>

theorem validateWorkflow_zero_nodes_counterexample:
  "wf_nodes empty_workflow = Some []
    \<and> validateWorkflow [] [\<lparr>systemName = ''A.txt''\<rparr>] (Some empty_workflow)
        = Inr (False, Some empty_workflow)"
  by (simp add: validateWorkflow_def empty_workflow_def)

text \<open>
  Claim C8, amended. A workflow with zero nodes (no workflow, no node list or an empty one)
  is judged valid exactly when at least one file is uploaded and at least one output entry
  exists; the check leaves the workflow as it is.
\<close>

theorem validateWorkflow_zero_nodes:
  assumes "wo = None \<or> (\<exists>w. wo = Some w \<and> (wf_nodes w = None \<or> wf_nodes w = Some []))"
  shows "validateWorkflow files outs wo = Inr (files \<noteq> [] \<and> outs \<noteq> [], wo)"
  using assms by (auto simp: validateWorkflow_def)

theorem validateWorkflow_zero_nodes_witness:
  "(Some empty_workflow = None
      \<or> (\<exists>w. Some empty_workflow = Some w \<and> (wf_nodes w = None \<or> wf_nodes w = Some [])))
    \<and> validateWorkflow [\<lparr>fi_name = ''report.txt'', fi_type = ''text/plain'', fi_label = ''A''\<rparr>]
          [\<lparr>systemName = ''A.txt''\<rparr>] (Some empty_workflow)
        = Inr (True, Some empty_workflow)"
proof -
  have h: "Some empty_workflow = None
      \<or> (\<exists>w. Some empty_workflow = Some w \<and> (wf_nodes w = None \<or> wf_nodes w = Some []))"
    by (simp add: empty_workflow_def)
  from validateWorkflow_zero_nodes [OF h,
      of "[\<lparr>fi_name = ''report.txt'', fi_type = ''text/plain'', fi_label = ''A''\<rparr>]"
         "[\<lparr>systemName = ''A.txt''\<rparr>]"] h
  show ?thesis by simp
qed


lemma sort_BA: "sort [''B.txt'', ''A.txt''] = [''A.txt'', ''B.txt'']"
  by (simp add: less_eq_char_def)

definition duplicate_then_unsorted :: workflow where
  "duplicate_then_unsorted =
     \<lparr>wf_nodes = Some [mk_node ''n1'' ''summarizer'' [''A.txt''],
        mk_node ''n2'' ''summarizer'' [''A.txt''], mk_node ''n3'' ''join'' [''B.txt'', ''A.txt'']],
      wf_connections = Some []\<rparr>"

definition sorted_then_duplicate :: workflow where
  "sorted_then_duplicate =
     \<lparr>wf_nodes = Some [mk_node ''n1'' ''join'' [''B.txt'', ''A.txt''],
        mk_node ''n2'' ''summarizer'' [''A.txt''], mk_node ''n3'' ''summarizer'' [''A.txt''],
        mk_node ''n4'' ''join'' [''B.txt'', ''A.txt'']],
      wf_connections = Some []\<rparr>"

lemma sorted_then_duplicate_keys:
  "map (typeInputKey \<circ> sortInputLabels)
     [mk_node ''n1'' ''join'' [''B.txt'', ''A.txt''],
      mk_node ''n2'' ''summarizer'' [''A.txt''], mk_node ''n3'' ''summarizer'' [''A.txt''],
      mk_node ''n4'' ''join'' [''B.txt'', ''A.txt'']]
   = [''join:A.txt,B.txt'', ''summarizer:A.txt'', ''summarizer:A.txt'', ''join:A.txt,B.txt'']"
  by (simp add: typeInputKey_def sortInputLabels_def mk_node_def sort_BA)

text \<open>
  Claim C9 as stated fails: the loop returns at the first duplicate and does not reach the
  nodes after it. Here the second node repeats the first, and the third node keeps its
  labels in the order \<open>B.txt, A.txt\<close>, which is not the sorted one.
\<close>

theorem detectDuplicateActions_sorts_counterexample:
  "detectDuplicateActions duplicate_then_unsorted = Inr (True, duplicate_then_unsorted)
    \<and> inputLabels (the (wf_nodes duplicate_then_unsorted) ! 2) = Some [''B.txt'', ''A.txt'']
    \<and> sort [''B.txt'', ''A.txt''] = [''A.txt'', ''B.txt'']"
proof -
  have "detectDuplicateActions duplicate_then_unsorted = Inr (True, duplicate_then_unsorted)"
    by (simp add: detectDuplicateActions_def duplicate_then_unsorted_def mk_node_def
        sortInputLabels_def typeInputKey_def)
  moreover have "inputLabels (the (wf_nodes duplicate_then_unsorted) ! 2)
      = Some [''B.txt'', ''A.txt'']"
    by (simp add: duplicate_then_unsorted_def mk_node_def)
  ultimately show ?thesis using sort_BA by simp
qed

text \<open>
  Claim C9, amended. Duplicate-action detection is not read-only: it sorts in place the
  input labels of every node that its loop reaches and leaves the later nodes as they were.
  The loop reaches all the nodes when it finds no duplicate, and otherwise the nodes up to
  and with the first one whose type and sorted inputs repeat those of an earlier node: with
  \<open>k\<close> nodes reached, the keys of the first \<open>k - 1\<close> nodes are pairwise different and the key
  of node \<open>k\<close> is among them, which fixes \<open>k\<close>. The answer is whether two nodes have the same
  key.
\<close>

theorem detectDuplicateActions_sorts_visited:
  assumes "wf_nodes w = Some ns"
  shows "\<exists>k. k \<le> length ns
     \<and> detectDuplicateActions w
         = Inr (\<not> distinct (map (typeInputKey \<circ> sortInputLabels) ns),
                w\<lparr>wf_nodes := Some (map sortInputLabels (take k ns) @ drop k ns)\<rparr>)
     \<and> (distinct (map (typeInputKey \<circ> sortInputLabels) ns) \<longrightarrow> k = length ns)
     \<and> (\<not> distinct (map (typeInputKey \<circ> sortInputLabels) ns) \<longrightarrow>
          0 < k
          \<and> distinct (take (k - 1) (map (typeInputKey \<circ> sortInputLabels) ns))
          \<and> map (typeInputKey \<circ> sortInputLabels) ns ! (k - 1)
              \<in> set (take (k - 1) (map (typeInputKey \<circ> sortInputLabels) ns)))"
proof -
  let ?r = "duplicates_from Map.empty ns"
  from duplicates_from_shape [of ns Map.empty] obtain k where k: "k \<le> length ns"
     "snd ?r = map sortInputLabels (take k ns) @ drop k ns"
     "\<not> fst ?r \<longrightarrow> k = length ns"
     "fst ?r \<longrightarrow> 0 < k
          \<and> distinct (take (k - 1) (map (typeInputKey \<circ> sortInputLabels) ns))
          \<and> map (typeInputKey \<circ> sortInputLabels) ns ! (k - 1)
              \<in> set (take (k - 1) (map (typeInputKey \<circ> sortInputLabels) ns))"
    by auto
  have f: "fst ?r = (\<not> distinct (map (typeInputKey \<circ> sortInputLabels) ns))"
    using duplicates_from_iff [of Map.empty ns] by simp
  have "detectDuplicateActions w = Inr (fst ?r, w\<lparr>wf_nodes := Some (snd ?r)\<rparr>)"
    using assms by (simp add: detectDuplicateActions_def split: prod.splits)
  with k show ?thesis unfolding f by (intro exI [of _ k]) simp
qed

theorem detectDuplicateActions_sorts_visited_witness:
  "wf_nodes sorted_then_duplicate
     = Some [mk_node ''n1'' ''join'' [''B.txt'', ''A.txt''],
        mk_node ''n2'' ''summarizer'' [''A.txt''], mk_node ''n3'' ''summarizer'' [''A.txt''],
        mk_node ''n4'' ''join'' [''B.txt'', ''A.txt'']]
    \<and> detectDuplicateActions sorted_then_duplicate
        = Inr (True, sorted_then_duplicate\<lparr>wf_nodes :=
            Some [mk_node ''n1'' ''join'' [''A.txt'', ''B.txt''],
              mk_node ''n2'' ''summarizer'' [''A.txt''], mk_node ''n3'' ''summarizer'' [''A.txt''],
              mk_node ''n4'' ''join'' [''B.txt'', ''A.txt'']]\<rparr>)"
proof -
  let ?ns = "[mk_node ''n1'' ''join'' [''B.txt'', ''A.txt''],
        mk_node ''n2'' ''summarizer'' [''A.txt''], mk_node ''n3'' ''summarizer'' [''A.txt''],
        mk_node ''n4'' ''join'' [''B.txt'', ''A.txt'']]"
  let ?keys = "[''join:A.txt,B.txt'', ''summarizer:A.txt'', ''summarizer:A.txt'',
        ''join:A.txt,B.txt'']"
  have h: "wf_nodes sorted_then_duplicate = Some ?ns"
    by (simp add: sorted_then_duplicate_def)
  have nd: "\<not> distinct ?keys" by simp
  from detectDuplicateActions_sorts_visited [OF h] obtain k where k: "k \<le> length ?ns"
    and r: "detectDuplicateActions sorted_then_duplicate
      = Inr (\<not> distinct ?keys, sorted_then_duplicate\<lparr>wf_nodes :=
          Some (map sortInputLabels (take k ?ns) @ drop k ?ns)\<rparr>)"
    and f: "\<not> distinct ?keys \<longrightarrow>
        0 < k \<and> distinct (take (k - 1) ?keys) \<and> ?keys ! (k - 1) \<in> set (take (k - 1) ?keys)"
    unfolding sorted_then_duplicate_keys by blast
  from f nd have pos: "0 < k" and dist: "distinct (take (k - 1) ?keys)"
    and mem: "?keys ! (k - 1) \<in> set (take (k - 1) ?keys)"
    by blast+
  from k pos have "k = 1 \<or> k = 2 \<or> k = 3 \<or> k = 4" by auto
  with dist mem have k3: "k = 3" by auto
  have s1: "sortInputLabels (mk_node ''n1'' ''join'' [''B.txt'', ''A.txt''])
      = mk_node ''n1'' ''join'' [''A.txt'', ''B.txt'']"
    by (simp add: sortInputLabels_def mk_node_def sort_BA)
  have s2: "sortInputLabels (mk_node i ''summarizer'' [''A.txt''])
      = mk_node i ''summarizer'' [''A.txt'']" for i
    by (simp add: sortInputLabels_def mk_node_def)
  from r nd have "detectDuplicateActions sorted_then_duplicate
      = Inr (True, sorted_then_duplicate\<lparr>wf_nodes :=
          Some (map sortInputLabels (take 3 ?ns) @ drop 3 ?ns)\<rparr>)"
    unfolding k3 by simp
  then have "detectDuplicateActions sorted_then_duplicate
      = Inr (True, sorted_then_duplicate\<lparr>wf_nodes :=
            Some [mk_node ''n1'' ''join'' [''A.txt'', ''B.txt''],
              mk_node ''n2'' ''summarizer'' [''A.txt''], mk_node ''n3'' ''summarizer'' [''A.txt''],
              mk_node ''n4'' ''join'' [''B.txt'', ''A.txt'']]\<rparr>)"
    by (simp add: s1 s2)
  with h show ?thesis by blast
qed

section \<open>WorkflowEngine: the execution orchestrator\<close>

text \<open>
  The message of an exception. The text of a \<^verbatim>\<open>TypeError\<close> is the JavaScript engine's and
  is not in the source; the model writes a fixed text for it, and no result depends on it.
\<close>

fun message_of :: "js_error \<Rightarrow> string" where
  "message_of TypeError = ''Cannot read properties of undefined''"
| "message_of (Error msg) = msg"

subsection \<open>Topological sort\<close>

text \<open>
  The inner function \<^verbatim>\<open>visit\<close> of \<^verbatim>\<open>topologicalSort\<close> works on the list \<^verbatim>\<open>sorted\<close> and
  the sets \<^verbatim>\<open>visited\<close> and \<^verbatim>\<open>temp\<close>, the state \<open>(acc, visited, temp)\<close> here, \<open>acc\<close> being the list \<^verbatim>\<open>sorted\<close>.
  \<open>visit_each\<close> is \<^verbatim>\<open>dependents.forEach(depId => visit(depId))\<close>; an exception ends it.
\<close>

type_synonym sort_state = "node list \<times> string set \<times> string set"

function visit :: "node list \<Rightarrow> connection list \<Rightarrow> string \<Rightarrow> sort_state \<Rightarrow> js_error + sort_state"
  and visit_each ::
    "node list \<Rightarrow> connection list \<Rightarrow> string list \<Rightarrow> sort_state \<Rightarrow> js_error + sort_state"
where
  "visit ns cs i (acc, visited, temp) =
     (if i \<in> temp then Inl (Error ''Circular dependency detected in workflow'')
      else if i \<in> visited then Inr (acc, visited, temp)
      else
        case visit_each ns cs (map toId (filter (\<lambda>conn. fromId conn = i) cs))
               (acc, visited, insert i temp) of
          Inl e \<Rightarrow> Inl e
        | Inr (acc', visited', temp') \<Rightarrow>
            Inr ((case find (\<lambda>n. nodeId n = i) ns of
                    Some n \<Rightarrow> n # acc'
                  | None \<Rightarrow> acc'),
                 insert i visited', temp' - {i}))"
| "visit_each ns cs [] st = Inr st"
| "visit_each ns cs (depId # depIds) st =
     (case visit ns cs depId st of
        Inl e \<Rightarrow> Inl e
      | Inr st' \<Rightarrow> visit_each ns cs depIds st')"
  by pat_completeness auto

text \<open>
  As long as it has not terminated, a call that returns leaves \<^verbatim>\<open>temp\<close> as it found it and
  takes nothing out of \<^verbatim>\<open>visited\<close>.
\<close>

lemma visit_frame_dom:
  "visit_visit_each_dom (Inl (ns, cs, i, st)) \<Longrightarrow> visit ns cs i st = Inr st' \<Longrightarrow>
     snd (snd st') = snd (snd st) \<and> fst (snd st) \<subseteq> fst (snd st')"
  "visit_visit_each_dom (Inr (ns, cs, ds, st)) \<Longrightarrow> visit_each ns cs ds st = Inr st' \<Longrightarrow>
     snd (snd st') = snd (snd st) \<and> fst (snd st) \<subseteq> fst (snd st')"
proof (induct arbitrary: st' and st' rule: visit_visit_each.pinduct)
  case (1 ns cs i acc visited temp)
  show ?case
  proof (cases "i \<in> temp \<or> i \<in> visited")
    case True
    with 1(1,3) show ?thesis by (auto simp: visit.psimps split: if_splits)
  next
    case False
    let ?deps = "map toId (filter (\<lambda>conn. fromId conn = i) cs)"
    from False 1(1,3) obtain s v t where
      e: "visit_each ns cs ?deps (acc, visited, insert i temp) = Inr (s, v, t)"
      and st': "snd st' = (insert i v, t - {i})"
      by (auto simp: visit.psimps split: if_splits sum.splits)
    from 1(2) [of "(s, v, t)"] False e have "t = insert i temp" "visited \<subseteq> v" by auto
    with False st' show ?thesis by auto
  qed
next
  case (2 ns cs st)
  then show ?case by (simp add: visit_each.psimps)
next
  case (3 ns cs depId depIds st)
  from 3(1,4) obtain st1 where d: "visit ns cs depId st = Inr st1"
    and r: "visit_each ns cs depIds st1 = Inr st'"
    by (auto simp: visit_each.psimps split: sum.splits)
  from 3(2) [OF d] 3(3) [OF d r] show ?case by auto
qed

termination visit
proof (relation "inv_image (less_than <*lex*> less_than)
    (\<lambda>x. case x of
        Inl (ns, cs, i, st) \<Rightarrow> (card ((verts cs \<union> {i}) - (fst (snd st) \<union> snd (snd st))), 0)
      | Inr (ns, cs, ds, st) \<Rightarrow>
          (card ((verts cs \<union> set ds) - (fst (snd st) \<union> snd (snd st))), Suc (length ds)))",
    goal_cases)
  case 1
  show ?case by (intro wf_inv_image wf_lex_prod wf_less_than)
next
  case (2 ns cs i acc visited temp)
  have "(verts cs \<union> set (map toId (filter (\<lambda>conn. fromId conn = i) cs)))
          - (visited \<union> insert i temp)
        \<subset> (verts cs \<union> {i}) - (visited \<union> temp)"
    using 2 by (auto simp: verts_def)
  moreover have "finite ((verts cs \<union> {i}) - (visited \<union> temp))" by (simp add: verts_def)
  ultimately show ?case by (simp add: psubset_card_mono)
next
  case (3 ns cs depId depIds st)
  have "(verts cs \<union> {depId}) - (fst (snd st) \<union> snd (snd st))
      \<subseteq> (verts cs \<union> set (depId # depIds)) - (fst (snd st) \<union> snd (snd st))"
    by auto
  moreover have "finite ((verts cs \<union> set (depId # depIds)) - (fst (snd st) \<union> snd (snd st)))"
    by (simp add: verts_def)
  ultimately have "card ((verts cs \<union> {depId}) - (fst (snd st) \<union> snd (snd st)))
      \<le> card ((verts cs \<union> set (depId # depIds)) - (fst (snd st) \<union> snd (snd st)))"
    by (rule card_mono [rotated])
  then show ?case by auto
next
  case (4 ns cs depId depIds st st')
  from visit_frame_dom(1) [OF 4(2) 4(1)]
  have "fst (snd st) \<union> snd (snd st) \<subseteq> fst (snd st') \<union> snd (snd st')" by auto
  then have "(verts cs \<union> set depIds) - (fst (snd st') \<union> snd (snd st'))
      \<subseteq> (verts cs \<union> set (depId # depIds)) - (fst (snd st) \<union> snd (snd st))"
    by auto
  moreover have "finite ((verts cs \<union> set (depId # depIds)) - (fst (snd st) \<union> snd (snd st)))"
    by (simp add: verts_def)
  ultimately have "card ((verts cs \<union> set depIds) - (fst (snd st') \<union> snd (snd st')))
      \<le> card ((verts cs \<union> set (depId # depIds)) - (fst (snd st) \<union> snd (snd st)))"
    by (rule card_mono [rotated])
  then show ?case by auto
qed

declare visit.simps [simp del]

text \<open>The last loop of \<^verbatim>\<open>topologicalSort\<close>: the nodes not yet visited are visited.\<close>

fun visit_remaining ::
  "node list \<Rightarrow> connection list \<Rightarrow> node list \<Rightarrow> sort_state \<Rightarrow> js_error + sort_state" where
  "visit_remaining ns cs [] st = Inr st"
| "visit_remaining ns cs (n # rest) st =
     (if nodeId n \<notin> fst (snd st) then
        (case visit ns cs (nodeId n) st of
           Inl e \<Rightarrow> Inl e
         | Inr st' \<Rightarrow> visit_remaining ns cs rest st')
      else visit_remaining ns cs rest st)"

definition topologicalSort :: "workflow \<Rightarrow> js_error + node list" where
  "topologicalSort w =
     (case wf_nodes w of
        None \<Rightarrow> Inl TypeError
      | Some ns \<Rightarrow>
          let cs = wf_conns w;
              nodesToVisit = filter (\<lambda>n. \<not> list_ex (\<lambda>conn. toId conn = nodeId n) cs) ns
          in case visit_each ns cs (map nodeId nodesToVisit) ([], {}, {}) of
               Inl e \<Rightarrow> Inl e
             | Inr st \<Rightarrow>
                 (case visit_remaining ns cs ns st of
                    Inl e \<Rightarrow> Inl e
                  | Inr (acc, visited, temp) \<Rightarrow> Inr acc))"

subsection \<open>Executing the nodes\<close>

text \<open>
  The processing backend \<^verbatim>\<open>openAIService.processFile(file, toolType, prompt)\<close> is an
  external collaborator: it returns a result or throws. The engine also reads the clock for
  the time stamp of each record. Both are parameters of the model: \<open>processFile\<close>, and
  \<open>clock k\<close>, the time stamp read when \<open>k\<close> records are in the result list.
\<close>

record mockFile =
  mf_name :: string
  mf_content :: string

record processResult =
  pr_fileName :: string
  pr_result :: "string option"
  pr_success :: bool

record environment =
  processFile :: "mockFile \<Rightarrow> string \<Rightarrow> string option \<Rightarrow> js_error + processResult"
  clock :: "nat \<Rightarrow> string"

record inputDatum =
  in_source :: string
  in_name :: string
  in_type :: string
  in_label :: "string option"
  in_content :: "string option"

record executionResult =
  er_nodeId :: string
  er_nodeType :: string
  er_systemName :: string
  er_content :: "string option"
  er_type :: string
  er_size :: nat
  er_success :: bool
  er_error :: "string option"
  er_executedAt :: string

datatype engine_event = Status_update string | Workflow_executed "executionResult list"

record workflowEngine =
  currentWorkflow :: "workflow option"
  executionResults :: "executionResult list"
  isExecuting :: bool
  emitted :: "engine_event list"

definition getFileCategory :: "string \<Rightarrow> string" where
  "getFileCategory t =
     (if prefix ''audio/'' t then ''audio''
      else if prefix ''video/'' t then ''video''
      else if t = ''application/pdf'' then ''pdf''
      else if prefix ''image/'' t then ''image''
      else if prefix ''text/'' t then ''text''
      else ''unknown'')"

definition getMockFileContent :: "fileInput \<Rightarrow> string" where
  "getMockFileContent f =
     or_default (map_of
       [(''audio'', ''[Audio content from '' @ fi_name f @ ''] - Mock transcription for demo''),
        (''video'', ''[Video content from '' @ fi_name f @ ''] - Mock video analysis for demo''),
        (''pdf'', ''[PDF content from '' @ fi_name f @ ''] - Mock PDF text extraction for demo''),
        (''image'', ''[Image content from '' @ fi_name f @ ''] - Mock OCR text extraction for demo''),
        (''text'', ''[Text content from '' @ fi_name f @ ''] - Mock text processing for demo'')]
       (getFileCategory (fi_type f)))
       (''Mock content from '' @ fi_name f)"

definition getNodeInputData :: "node \<Rightarrow> workflow \<Rightarrow> workflowEngine \<Rightarrow> inputDatum list" where
  "getNodeInputData n w s =
     (let fromFiles =
            map (\<lambda>f. \<lparr>in_source = ''file'', in_name = fi_name f, in_type = fi_type f,
                       in_label = Some (fi_label f), in_content = Some (getMockFileContent f)\<rparr>)
              (case fileInputs n of None \<Rightarrow> [] | Some fs \<Rightarrow> fs);
          incomingConnections = filter (\<lambda>conn. toId conn = nodeId n) (wf_conns w);
          fromNodes =
            concat (map (\<lambda>conn.
                case find (\<lambda>r. er_nodeId r = fromId conn) (executionResults s) of
                  None \<Rightarrow> []
                | Some sourceResult \<Rightarrow>
                    [\<lparr>in_source = ''node'', in_name = fileName conn, in_type = er_type sourceResult,
                      in_label = None, in_content = er_content sourceResult\<rparr>])
              incomingConnections)
      in fromFiles @ fromNodes)"

text \<open>
  \<^verbatim>\<open>node.outputLabels[0]\<close> throws when the node has no \<^verbatim>\<open>outputLabels\<close>; an absent or empty
  first element gives the default name. \<^verbatim>\<open>join\<close> writes an absent content as the empty
  string.
\<close>

definition processNodeData ::
  "environment \<Rightarrow> node \<Rightarrow> inputDatum list \<Rightarrow> js_error + processResult" where
  "processNodeData env n inputData =
     (let combinedContent =
            join [CHR 0x0A, CHR 0x0A]
              (map (\<lambda>d. case in_content d of None \<Rightarrow> [] | Some c \<Rightarrow> c) inputData)
      in case outputLabels n of
           None \<Rightarrow> Inl TypeError
         | Some ols \<Rightarrow>
             processFile env
               \<lparr>mf_name = or_default (case ols of [] \<Rightarrow> None | l # _ \<Rightarrow> Some l)
                             (nodeType n @ ''_output.txt''),
                mf_content = combinedContent\<rparr>
               (nodeType n) (customPrompt n))"

definition getOutputContentType :: "string \<Rightarrow> string" where
  "getOutputContentType t =
     or_default (map_of
       [(''audio2text'', ''text/plain''), (''video2audio'', ''audio/wav''),
        (''pdf2text'', ''text/plain''), (''image2text'', ''text/plain''),
        (''webscraper'', ''text/plain''), (''summarizer'', ''text/plain''),
        (''translator'', ''text/plain''), (''analyzer'', ''text/plain''),
        (''text2pdf'', ''application/pdf''), (''text2template'', ''text/html'')] t)
       ''text/plain''"

definition success_record :: "node \<Rightarrow> processResult \<Rightarrow> string \<Rightarrow> executionResult" where
  "success_record n r at =
     \<lparr>er_nodeId = nodeId n, er_nodeType = nodeType n, er_systemName = pr_fileName r,
      er_content = pr_result r, er_type = getOutputContentType (nodeType n),
      er_size = (case pr_result r of None \<Rightarrow> 0 | Some c \<Rightarrow> length c),
      er_success = pr_success r, er_error = None, er_executedAt = at\<rparr>"

definition error_record :: "node \<Rightarrow> js_error \<Rightarrow> string \<Rightarrow> executionResult" where
  "error_record n e at =
     \<lparr>er_nodeId = nodeId n, er_nodeType = nodeType n,
      er_systemName = nodeType n @ ''_error.txt'',
      er_content = Some (''Error: '' @ message_of e), er_type = ''text/plain'',
      er_size = length (message_of e), er_success = False,
      er_error = Some (message_of e), er_executedAt = at\<rparr>"

text \<open>
  \<^verbatim>\<open>executeNode\<close>: the body of the \<^verbatim>\<open>try\<close> and the \<^verbatim>\<open>catch\<close>, which records the failure and
  throws the exception again. The state is returned in both cases.
\<close>

definition executeNode ::
  "environment \<Rightarrow> node \<Rightarrow> workflow \<Rightarrow> workflowEngine \<Rightarrow> (js_error + processResult) \<times> workflowEngine"
  where
  "executeNode env n w s =
     (let s1 = s\<lparr>emitted := emitted s @ [Status_update (''Processing '' @ nodeType n @ ''...'')]\<rparr>;
          inputData = getNodeInputData n w s1
      in case processNodeData env n inputData of
           Inr r \<Rightarrow>
             (Inr r, s1\<lparr>executionResults := executionResults s1
                @ [success_record n r (clock env (length (executionResults s1)))]\<rparr>)
         | Inl e \<Rightarrow>
             (Inl e, s1\<lparr>executionResults := executionResults s1
                @ [error_record n e (clock env (length (executionResults s1)))]\<rparr>))"

text \<open>The loop \<^verbatim>\<open>for (const node of sortedNodes) await this.executeNode(node, ...)\<close>.\<close>

fun executeNodes ::
  "environment \<Rightarrow> workflow \<Rightarrow> node list \<Rightarrow> workflowEngine \<Rightarrow> js_error option \<times> workflowEngine"
  where
  "executeNodes env w [] s = (None, s)"
| "executeNodes env w (n # ns) s =
     (case executeNode env n w s of
        (Inl e, s') \<Rightarrow> (Some e, s')
      | (Inr r, s') \<Rightarrow> executeNodes env w ns s')"

text \<open>
  \<^verbatim>\<open>executeWorkflow\<close>. The two guards throw before the \<^verbatim>\<open>try\<close>; whatever happens inside
  it, the \<^verbatim>\<open>finally\<close> block sets \<^verbatim>\<open>isExecuting\<close> to false.
\<close>

definition executeWorkflow ::
  "environment \<Rightarrow> workflow option \<Rightarrow> workflowEngine
     \<Rightarrow> (js_error + executionResult list) \<times> workflowEngine" where
  "executeWorkflow env wo s =
     (case (case wo of Some w \<Rightarrow> Some w | None \<Rightarrow> currentWorkflow s) of
        None \<Rightarrow> (Inl (Error ''No workflow to execute''), s)
      | Some w \<Rightarrow>
          if isExecuting s then (Inl (Error ''Workflow execution already in progress''), s)
          else
            let s1 = s\<lparr>isExecuting := True, executionResults := [],
                       emitted := emitted s @ [Status_update ''Executing workflow...'']\<rparr>;
                (outcome, s2) =
                  (case topologicalSort w of
                     Inl e \<Rightarrow> (Inl e, s1)
                   | Inr sortedNodes \<Rightarrow>
                       (case executeNodes env w sortedNodes s1 of
                          (Some e, s') \<Rightarrow> (Inl e, s')
                        | (None, s') \<Rightarrow>
                            (Inr (executionResults s'),
                             s'\<lparr>emitted := emitted s'
                                  @ [Workflow_executed (executionResults s')]\<rparr>)))
            in (outcome, s2\<lparr>isExecuting := False\<rparr>))"

subsection \<open>A failing node aborts the run; the in-progress flag is always reset\<close>

lemma executeNode_emitted:
  "emitted (snd (executeNode env n w s))
     = emitted s @ [Status_update (''Processing '' @ nodeType n @ ''...'')]"
  by (simp add: executeNode_def Let_def split: sum.splits)

lemma executeNode_isExecuting: "isExecuting (snd (executeNode env n w s)) = isExecuting s"
  by (simp add: executeNode_def Let_def split: sum.splits)

lemma executeNode_failure:
  "fst (executeNode env n w s) = Inl e \<Longrightarrow>
   snd (executeNode env n w s)
     = s\<lparr>emitted := emitted s @ [Status_update (''Processing '' @ nodeType n @ ''...'')],
         executionResults := executionResults s
           @ [error_record n e (clock env (length (executionResults s)))]\<rparr>"
  by (simp add: executeNode_def Let_def split: sum.splits)

lemma executeNode_success:
  "fst (executeNode env n w s) = Inr r \<Longrightarrow>
   snd (executeNode env n w s)
     = s\<lparr>emitted := emitted s @ [Status_update (''Processing '' @ nodeType n @ ''...'')],
         executionResults := executionResults s
           @ [success_record n r (clock env (length (executionResults s)))]\<rparr>"
  by (simp add: executeNode_def Let_def split: sum.splits)

lemma executeNodes_isExecuting: "isExecuting (snd (executeNodes env w ns s)) = isExecuting s"
proof (induction ns arbitrary: s)
  case Nil
  show ?case by simp
next
  case (Cons n ns)
  obtain out s' where e: "executeNode env n w s = (out, s')" by (metis prod.exhaust)
  with executeNode_isExecuting [of env n w s] have i: "isExecuting s' = isExecuting s" by simp
  show ?case
  proof (cases out)
    case (Inl err)
    with e i show ?thesis by simp
  next
    case (Inr r)
    with e i Cons.IH [of s'] show ?thesis by simp
  qed
qed

lemma executeNodes_emitted_prefix: "prefix (emitted s) (emitted (snd (executeNodes env w ns s)))"
proof (induction ns arbitrary: s)
  case Nil
  show ?case by simp
next
  case (Cons n ns)
  obtain out s' where e: "executeNode env n w s = (out, s')" by (metis prod.exhaust)
  with executeNode_emitted [of env n w s] have p: "prefix (emitted s) (emitted s')" by simp
  show ?case
  proof (cases out)
    case (Inl err)
    with e p show ?thesis by simp
  next
    case (Inr r)
    with e p Cons.IH [of s'] show ?thesis by (auto intro: prefix_order.trans)
  qed
qed

lemma executeNodes_append:
  "executeNodes env w (pre @ rest) s
     = (case executeNodes env w pre s of
          (Some e, s') \<Rightarrow> (Some e, s')
        | (None, s') \<Rightarrow> executeNodes env w rest s')"
  by (induction pre arbitrary: s) (auto split: prod.splits sum.splits option.splits)

lemma executeNodes_results:
  "executeNodes env w ns s = (None, s') \<Longrightarrow>
   map er_nodeId (executionResults s') = map er_nodeId (executionResults s) @ map nodeId ns"
proof (induction ns arbitrary: s)
  case Nil
  then show ?case by simp
next
  case (Cons n ns)
  obtain out s1 where e: "executeNode env n w s = (out, s1)" by (metis prod.exhaust)
  with Cons.prems obtain r where r: "out = Inr r" and rest: "executeNodes env w ns s1 = (None, s')"
    by (cases out) auto
  from executeNode_success [of env n w s r] e r
  have "map er_nodeId (executionResults s1) = map er_nodeId (executionResults s) @ [nodeId n]"
    by (simp add: success_record_def)
  with Cons.IH [OF rest] show ?case by simp
qed

definition example_env :: environment where
  "example_env =
     \<lparr>processFile = (\<lambda>f t p.
        if t = ''translator'' then Inl (Error ''backend unavailable'')
        else Inr \<lparr>pr_fileName = mf_name f, pr_result = Some (mf_content f), pr_success = True\<rparr>),
      clock = (\<lambda>k. ''t'' @ string_of_nat k)\<rparr>"

definition idle_engine :: workflowEngine where
  "idle_engine =
     \<lparr>currentWorkflow = None, executionResults = [], isExecuting = False, emitted = []\<rparr>"

definition pipeline :: workflow where
  "pipeline =
     \<lparr>wf_nodes = Some [mk_node ''n3'' ''summarizer'' [''A-fr.txt''],
        mk_node ''n1'' ''pdf2text'' [''A.pdf''], mk_node ''n2'' ''translator'' [''A.txt'']],
      wf_connections = Some [mk_conn ''n1'' ''n2'', mk_conn ''n2'' ''n3'']\<rparr>"

definition single :: workflow where
  "single = \<lparr>wf_nodes = Some [mk_node ''n1'' ''pdf2text'' [''A.pdf'']], wf_connections = None\<rparr>"

lemma topologicalSort_pipeline:
  "topologicalSort pipeline
     = Inr ([mk_node ''n1'' ''pdf2text'' [''A.pdf'']] @ mk_node ''n2'' ''translator'' [''A.txt'']
            # [mk_node ''n3'' ''summarizer'' [''A-fr.txt'']])"
  by (simp add: topologicalSort_def pipeline_def wf_conns_def mk_node_def mk_conn_def visit.simps)

lemma topologicalSort_triangle:
  "topologicalSort triangle = Inl (Error ''Circular dependency detected in workflow'')"
  by (simp add: topologicalSort_def triangle_def wf_conns_def mk_node_def mk_conn_def visit.simps)

lemma topologicalSort_single: "topologicalSort single = Inr [mk_node ''n1'' ''pdf2text'' [''A.pdf'']]"
  by (simp add: topologicalSort_def single_def wf_conns_def mk_node_def mk_conn_def visit.simps)

text \<open>
  Claim C6. Let an execution start on an idle engine, let the sorted order be \<open>pre\<close>, then
  \<open>n\<close>, then \<open>post\<close>, let the nodes of \<open>pre\<close> run without an exception and let the processing
  of \<open>n\<close> throw \<open>e\<close>. Then \<^verbatim>\<open>executeWorkflow\<close> throws \<open>e\<close>; the results are those of the
  nodes of \<open>pre\<close>, kept, and after them one error record for \<open>n\<close> with the success flag
  false, the message of \<open>e\<close> and a time stamp; the last event is the status update for
  \<open>n\<close>, so that no node of \<open>post\<close> is started and no completion is announced.
\<close>

theorem executeWorkflow_node_failure:
  fixes s :: workflowEngine and env :: environment and w :: workflow and pre :: "node list"
  defines "s1 \<equiv> s\<lparr>isExecuting := True, executionResults := [],
                   emitted := emitted s @ [Status_update ''Executing workflow...'']\<rparr>"
  defines "s2 \<equiv> snd (executeNodes env w pre s1)"
  assumes idle: "\<not> isExecuting s"
    and order: "topologicalSort w = Inr (pre @ n # post)"
    and before: "fst (executeNodes env w pre s1) = None"
    and fails: "fst (executeNode env n w s2) = Inl e"
  shows "executeWorkflow env (Some w) s
      = (Inl e,
         s2\<lparr>emitted := emitted s2 @ [Status_update (''Processing '' @ nodeType n @ ''...'')],
            executionResults := executionResults s2
              @ [error_record n e (clock env (length (executionResults s2)))],
            isExecuting := False\<rparr>)
    \<and> map er_nodeId (executionResults (snd (executeWorkflow env (Some w) s)))
        = map nodeId pre @ [nodeId n]
    \<and> er_success (error_record n e (clock env (length (executionResults s2)))) = False
    \<and> er_error (error_record n e (clock env (length (executionResults s2)))) = Some (message_of e)
    \<and> er_executedAt (error_record n e (clock env (length (executionResults s2))))
        = clock env (length pre)"
proof -
  let ?s3 = "s2\<lparr>emitted := emitted s2 @ [Status_update (''Processing '' @ nodeType n @ ''...'')],
            executionResults := executionResults s2
              @ [error_record n e (clock env (length (executionResults s2)))]\<rparr>"
  from before have pre_run: "executeNodes env w pre s1 = (None, s2)"
    by (simp add: s2_def prod_eq_iff)
  from executeNode_failure [OF fails] fails have en: "executeNode env n w s2 = (Inl e, ?s3)"
    by (metis prod.collapse)
  then have "executeNodes env w (n # post) s2 = (Some e, ?s3)" by simp
  with pre_run have run: "executeNodes env w (pre @ n # post) s1 = (Some e, ?s3)"
    by (simp add: executeNodes_append)
  have main: "executeWorkflow env (Some w) s = (Inl e, ?s3\<lparr>isExecuting := False\<rparr>)"
    using idle order run by (simp add: executeWorkflow_def s1_def [symmetric] Let_def)
  from executeNodes_results [OF pre_run]
  have ids: "map er_nodeId (executionResults s2) = map nodeId pre" by (simp add: s1_def)
  then have len: "length (executionResults s2) = length pre" by (metis length_map)
  from main ids len show ?thesis by (simp add: error_record_def)
qed

theorem executeWorkflow_node_failure_witness:
  "\<not> isExecuting idle_engine
    \<and> topologicalSort pipeline
        = Inr ([mk_node ''n1'' ''pdf2text'' [''A.pdf'']] @ mk_node ''n2'' ''translator'' [''A.txt'']
               # [mk_node ''n3'' ''summarizer'' [''A-fr.txt'']])
    \<and> fst (executeWorkflow example_env (Some pipeline) idle_engine)
        = Inl (Error ''backend unavailable'')
    \<and> map er_nodeId (executionResults (snd (executeWorkflow example_env (Some pipeline)
          idle_engine))) = [''n1'', ''n2'']"
proof -
  let ?s1 = "idle_engine\<lparr>isExecuting := True, executionResults := [],
      emitted := emitted idle_engine @ [Status_update ''Executing workflow...'']\<rparr>"
  let ?pre = "[mk_node ''n1'' ''pdf2text'' [''A.pdf'']]"
  let ?n = "mk_node ''n2'' ''translator'' [''A.txt'']"
  have idle: "\<not> isExecuting idle_engine" by (simp add: idle_engine_def)
  have before: "fst (executeNodes example_env pipeline ?pre ?s1) = None"
    by (simp add: executeNode_def processNodeData_def example_env_def mk_node_def Let_def)
  have fails: "fst (executeNode example_env ?n pipeline (snd (executeNodes example_env pipeline
      ?pre ?s1))) = Inl (Error ''backend unavailable'')"
    by (simp add: executeNode_def processNodeData_def example_env_def mk_node_def Let_def
        split: sum.splits)
  note inst = executeWorkflow_node_failure [OF idle topologicalSort_pipeline before fails]
  from conjunct1 [OF inst]
  have thrown: "fst (executeWorkflow example_env (Some pipeline) idle_engine)
        = Inl (Error ''backend unavailable'')"
    by (metis fst_conv)
  from conjunct1 [OF conjunct2 [OF inst]]
  have "map er_nodeId (executionResults (snd (executeWorkflow example_env (Some pipeline)
          idle_engine))) = map nodeId ?pre @ [nodeId ?n]" .
  then have "map er_nodeId (executionResults (snd (executeWorkflow example_env (Some pipeline)
          idle_engine))) = [''n1'', ''n2'']"
    by (simp add: mk_node_def)
  with idle topologicalSort_pipeline thrown show ?thesis by blast
qed

text \<open>
  Claim C10. An execution that starts on an idle engine leaves \<^verbatim>\<open>isExecuting\<close> false when
  it finishes, whatever its outcome: a normal return, an exception of a node or of the
  topological sort. A next execution is then not refused by the in-progress guard: it
  starts, and announces so. A call made while \<^verbatim>\<open>isExecuting\<close> is true is refused with an
  exception and changes nothing.
\<close>

theorem executeWorkflow_resets_isExecuting:
  "(\<not> isExecuting s \<longrightarrow> \<not> isExecuting (snd (executeWorkflow env wo s)))
   \<and> (isExecuting s \<longrightarrow> snd (executeWorkflow env wo s) = s
        \<and> (\<exists>msg. fst (executeWorkflow env wo s) = Inl (Error msg)))
   \<and> (\<not> isExecuting s \<longrightarrow>
        prefix (emitted (snd (executeWorkflow env wo s)) @ [Status_update ''Executing workflow...''])
          (emitted (snd (executeWorkflow env' (Some w') (snd (executeWorkflow env wo s))))))"
proof -
  have a: "\<not> isExecuting (snd (executeWorkflow env wo s))" if "\<not> isExecuting s" for s env wo
    using that
    by (auto simp: executeWorkflow_def Let_def split: option.splits sum.splits prod.splits)
  have b: "prefix (emitted t @ [Status_update ''Executing workflow...''])
          (emitted (snd (executeWorkflow env' (Some w') t)))" if "\<not> isExecuting t" for t
  proof -
    let ?t1 = "t\<lparr>isExecuting := True, executionResults := [],
                   emitted := emitted t @ [Status_update ''Executing workflow...'']\<rparr>"
    have "prefix (emitted ?t1) (emitted (snd (executeWorkflow env' (Some w') t)))"
    proof (cases "topologicalSort w'")
      case (Inl e)
      with that show ?thesis by (simp add: executeWorkflow_def Let_def)
    next
      case (Inr sortedNodes)
      obtain out t2 where r: "executeNodes env' w' sortedNodes ?t1 = (out, t2)"
        by (metis prod.exhaust)
      with executeNodes_emitted_prefix [of ?t1 env' w' sortedNodes]
      have "prefix (emitted ?t1) (emitted t2)" by simp
      with that Inr r show ?thesis
        by (cases out) (auto simp: executeWorkflow_def Let_def)
    qed
    then show ?thesis by simp
  qed
  have c: "snd (executeWorkflow env wo s) = s
        \<and> (\<exists>msg. fst (executeWorkflow env wo s) = Inl (Error msg))" if "isExecuting s"
    using that by (auto simp: executeWorkflow_def split: option.splits)
  from a [of s env wo] b [of "snd (executeWorkflow env wo s)"] c show ?thesis by blast
qed

theorem executeWorkflow_resets_isExecuting_witness:
  "\<not> isExecuting idle_engine
    \<and> (\<exists>results. fst (executeWorkflow example_env (Some single) idle_engine) = Inr results)
    \<and> \<not> isExecuting (snd (executeWorkflow example_env (Some single) idle_engine))
    \<and> fst (executeWorkflow example_env (Some pipeline) idle_engine)
        = Inl (Error ''backend unavailable'')
    \<and> \<not> isExecuting (snd (executeWorkflow example_env (Some pipeline) idle_engine))
    \<and> fst (executeWorkflow example_env (Some triangle) idle_engine)
        = Inl (Error ''Circular dependency detected in workflow'')
    \<and> \<not> isExecuting (snd (executeWorkflow example_env (Some triangle) idle_engine))"
proof -
  have idle: "\<not> isExecuting idle_engine" by (simp add: idle_engine_def)
  have r1: "\<exists>results. fst (executeWorkflow example_env (Some single) idle_engine) = Inr results"
    by (simp add: executeWorkflow_def idle_engine_def topologicalSort_single executeNode_def
        processNodeData_def example_env_def mk_node_def Let_def)
  have r2: "fst (executeWorkflow example_env (Some pipeline) idle_engine)
      = Inl (Error ''backend unavailable'')"
    by (simp add: executeWorkflow_def idle_engine_def topologicalSort_pipeline executeNode_def
        processNodeData_def example_env_def mk_node_def Let_def)
  have r3: "fst (executeWorkflow example_env (Some triangle) idle_engine)
      = Inl (Error ''Circular dependency detected in workflow'')"
    by (simp add: executeWorkflow_def idle_engine_def topologicalSort_triangle)
  from executeWorkflow_resets_isExecuting [of idle_engine example_env "Some single"] idle
  have a1: "\<not> isExecuting (snd (executeWorkflow example_env (Some single) idle_engine))"
    by blast
  from executeWorkflow_resets_isExecuting [of idle_engine example_env "Some pipeline"] idle
  have a2: "\<not> isExecuting (snd (executeWorkflow example_env (Some pipeline) idle_engine))"
    by blast
  from executeWorkflow_resets_isExecuting [of idle_engine example_env "Some triangle"] idle
  have a3: "\<not> isExecuting (snd (executeWorkflow example_env (Some triangle) idle_engine))"
    by blast
  from idle r1 r2 r3 a1 a2 a3 show ?thesis by blast
qed

end
